theory Spec2Isabelle
  imports Main
begin

section \<open>Values and errors of the host language\<close>

text \<open>
  The repository is JavaScript. The model keeps the values the code handles as
  datatypes and every thrown exception as a value of \<open>js_error\<close>, returned on the
  left of a sum. Numbers are the integers (the exact range of the platform's
  numbers); strings are lists of 8-bit characters.
\<close>

datatype js_error =
    PlainError string
  | TypeError string
  | SyntaxError string
  | QuotaExceededError
  | ProviderError string
  | Thrown nat
  | OutsideModel

text \<open>
  \<open>error.errorCode\<close>: only the errors of the identity provider library carry the
  field; reading it on any other thrown value gives \<open>undefined\<close>. \<open>OutsideModel\<close>
  is no exception of the program: it marks a text whose value the model does not
  represent (see \<open>JSON_parse\<close>).
\<close>

fun errorCode :: "js_error \<Rightarrow> string option" where
  "errorCode (ProviderError c) = Some c"
| "errorCode _ = None"

subsection \<open>Decimal rendering of integers: \<open>Number.prototype.toString\<close>\<close>

definition digit_char :: "nat \<Rightarrow> char" where
  "digit_char d = ''0123456789'' ! d"

function digits_of :: "nat \<Rightarrow> string" where
  "digits_of n =
     (if n < 10 then [digit_char n] else digits_of (n div 10) @ [digit_char (n mod 10)])"
  by pat_completeness auto
termination
  by (relation "measure id") auto

declare digits_of.simps [simp del]

definition Number_toString :: "int \<Rightarrow> string" where
  "Number_toString i =
     (if i < 0 then CHR ''-'' # digits_of (nat (- i)) else digits_of (nat i))"

subsection \<open>Objects as property lists\<close>

text \<open>
  An object is the list of its properties in the order \<open>Object.keys\<close> gives:
  the array-index keys first, ascending, then the other keys in creation order.
  \<open>set_prop\<close> assigns in creation order (an existing key keeps its place);
  \<open>define_prop\<close> is the assignment \<open>object[k] = v\<close> on an ordinary object.
\<close>

fun set_prop :: "string \<Rightarrow> 'v \<Rightarrow> (string \<times> 'v) list \<Rightarrow> (string \<times> 'v) list" where
  "set_prop k v [] = [(k, v)]"
| "set_prop k v (p # ps) = (if fst p = k then (k, v) # ps else p # set_prop k v ps)"

definition is_digit :: "char \<Rightarrow> bool" where
  "is_digit c = (c \<in> set ''0123456789'')"

definition digit_val :: "char \<Rightarrow> nat" where
  "digit_val c = of_char c - 48"

definition digits_val :: "string \<Rightarrow> nat" where
  "digits_val ds = foldl (\<lambda>n c. 10 * n + digit_val c) 0 ds"

text \<open>An array index is the decimal text, without leading zeros, of a number below \<open>2^32 - 1\<close>.\<close>

definition index_of :: "string \<Rightarrow> nat option" where
  "index_of k =
     (if k \<noteq> [] \<and> list_all is_digit k \<and> (k = ''0'' \<or> hd k \<noteq> CHR ''0'')
         \<and> digits_val k < 4294967295
      then Some (digits_val k) else None)"

fun insert_index :: "nat \<Rightarrow> string \<Rightarrow> 'v \<Rightarrow> (string \<times> 'v) list \<Rightarrow> (string \<times> 'v) list" where
  "insert_index n k v [] = [(k, v)]"
| "insert_index n k v (p # ps) =
     (case index_of (fst p) of
        Some m \<Rightarrow> if m < n then p # insert_index n k v ps else (k, v) # p # ps
      | None \<Rightarrow> (k, v) # p # ps)"

definition define_prop :: "string \<Rightarrow> 'v \<Rightarrow> (string \<times> 'v) list \<Rightarrow> (string \<times> 'v) list" where
  "define_prop k v ps =
     (case index_of k of
        Some n \<Rightarrow> if k \<in> set (map fst ps) then set_prop k v ps else insert_index n k v ps
      | None \<Rightarrow> set_prop k v ps)"

section \<open>Observer (observer.util)\<close>

text \<open>
  A listener is code of the caller. The model keeps what the observer can see of
  it: a tag that names it in the log of invocations, and whether calling it
  raises. \<open>subscriptors\<close> maps an id to a listener, or to \<open>undefined\<close>
  (\<open>None\<close>) once \<open>unsubscribe\<close> has run. \<open>Date.now()\<close> is the argument
  \<open>now\<close>.
\<close>

datatype callback = Callback (cb_tag: nat) (cb_raises: "js_error option")

record observer =
  subscriptors :: "(string \<times> callback option) list"

definition Observer_new :: observer where
  "Observer_new = \<lparr> subscriptors = [] \<rparr>"

definition subscribe :: "int \<Rightarrow> callback \<Rightarrow> observer \<Rightarrow> string \<times> observer" where
  "subscribe now cb obs =
     (let id' = Number_toString now
      in (id', obs \<lparr> subscriptors := define_prop id' (Some cb) (subscriptors obs) \<rparr>))"

definition unsubscribe :: "string \<Rightarrow> observer \<Rightarrow> observer" where
  "unsubscribe id' obs = obs \<lparr> subscriptors := define_prop id' None (subscriptors obs) \<rparr>"

text \<open>
  \<open>trigger\<close> walks \<open>Object.values(this.subscriptors)\<close>; \<open>callback && callback(args)\<close>
  skips the removed entries. There is no handler around the call: the first
  listener that raises ends the loop and the exception leaves \<open>trigger\<close>. The
  result is the log of invocations (tag and payload) and the exception, if any.
\<close>

fun call_each :: "callback option list \<Rightarrow> 'a \<Rightarrow> (nat \<times> 'a) list \<times> js_error option" where
  "call_each [] args = ([], None)"
| "call_each (None # cs) args = call_each cs args"
| "call_each (Some cb # cs) args =
     (case cb_raises cb of
        Some e \<Rightarrow> ([(cb_tag cb, args)], Some e)
      | None \<Rightarrow> (let (log, r) = call_each cs args in ((cb_tag cb, args) # log, r)))"

definition trigger :: "observer \<Rightarrow> 'a \<Rightarrow> (nat \<times> 'a) list \<times> js_error option" where
  "trigger obs args = call_each (map snd (subscriptors obs)) args"

text \<open>The listeners that are registered and not removed, in iteration order.\<close>

definition live :: "observer \<Rightarrow> callback list" where
  "live obs = List.map_filter snd (subscriptors obs)"

section \<open>Values\<close>

text \<open>
  \<open>jsval\<close> are the values that reach the cache and the token claims: the JSON
  shapes, \<open>undefined\<close>, a \<open>Date\<close> (by its milliseconds since the epoch) and a
  \<open>BigInt\<close> (a value \<open>JSON.stringify\<close> refuses).
\<close>

datatype jsval =
    JUndefined
  | JNull
  | JBool bool
  | JNum int
  | JStr string
  | JArr "jsval list"
  | JObj "(string \<times> jsval) list"
  | JDate int
  | JBigInt int

text \<open>
  \<open>sval\<close> are the values of the fields of the session state. An object (an error
  that was caught, say) is kept by its identity, which is what \<open>!==\<close> compares.
\<close>

datatype sval = SUndefined | SNull | SBool bool | SNum int | SNaN | SStr string | SRef nat

text \<open>\<open>a !== b\<close>: \<open>NaN\<close> differs from every value, itself included.\<close>

fun strict_neq :: "sval \<Rightarrow> sval \<Rightarrow> bool" where
  "strict_neq SNaN b = True"
| "strict_neq a SNaN = True"
| "strict_neq a b = (a \<noteq> b)"

type_synonym session = "(string \<times> sval) list"

text \<open>\<open>object[key]\<close>: \<open>undefined\<close> where the object has no such property.\<close>

definition get_field :: "session \<Rightarrow> string \<Rightarrow> sval" where
  "get_field st key = (case map_of st key of None \<Rightarrow> SUndefined | Some v \<Rightarrow> v)"

text \<open>\<open>{ ...a, ...b }\<close>\<close>

definition spread :: "session \<Rightarrow> session \<Rightarrow> session" where
  "spread a b = foldl (\<lambda>acc (k, v). define_prop k v acc) a b"

section \<open>JSON text\<close>

text \<open>
  \<open>JSON.stringify\<close> and \<open>JSON.parse\<close> belong to the platform. The model has them
  for the values of \<open>jsval\<close>: integers (exact up to \<open>2^53\<close>) and strings of
  8-bit characters. A text that the platform parses to a value outside this range
  (a fraction, an exponent, a larger integer, a character beyond \<open>U+00FF\<close>) is
  reported as \<open>OutsideModel\<close>, which is no exception of the program: it marks
  the texts about which the model says nothing.
\<close>

abbreviation dquote :: char where "dquote \<equiv> CHR 0x22"
abbreviation bslash :: char where "bslash \<equiv> CHR 0x5C"

definition hex_char :: "nat \<Rightarrow> char" where
  "hex_char d = ''0123456789abcdef'' ! d"

definition hex_val :: "char \<Rightarrow> nat option" where
  "hex_val c =
     (if is_digit c then Some (digit_val c)
      else if c \<in> set ''abcdef'' then Some (of_char c - 87)
      else if c \<in> set ''ABCDEF'' then Some (of_char c - 55)
      else None)"

text \<open>\<open>QuoteJSONString\<close>: the escapes of \<open>JSON.stringify\<close>.\<close>

definition esc :: "char \<Rightarrow> string" where
  "esc c =
     (if c = dquote then [bslash, dquote]
      else if c = bslash then [bslash, bslash]
      else if c = CHR 0x08 then [bslash, CHR ''b'']
      else if c = CHR 0x0C then [bslash, CHR ''f'']
      else if c = CHR 0x0A then [bslash, CHR ''n'']
      else if c = CHR 0x0D then [bslash, CHR ''r'']
      else if c = CHR 0x09 then [bslash, CHR ''t'']
      else if of_char c < (32::nat)
        then [bslash, CHR ''u'', CHR ''0'', CHR ''0'',
              hex_char (of_char c div 16), hex_char (of_char c mod 16)]
      else [c])"

definition QuoteJSONString :: "string \<Rightarrow> string" where
  "QuoteJSONString s = dquote # concat (map esc s) @ [dquote]"

fun commas :: "string list \<Rightarrow> string" where
  "commas [] = []"
| "commas [s] = s"
| "commas (s # t # ss) = s @ '','' @ commas (t # ss)"

subsection \<open>Dates as text: \<open>Date.prototype.toISOString\<close>\<close>

text \<open>
  The civil date of a day count from 1970-01-01 and back, in the proleptic
  Gregorian calendar (eras of 400 years that start on a first of March), and the
  text \<open>YYYY-MM-DDTHH:mm:ss.sssZ\<close>.
\<close>

text \<open>A number in at least \<open>w\<close> digits, for \<open>w\<close> up to six.\<close>

definition pad :: "nat \<Rightarrow> nat \<Rightarrow> string" where
  "pad w n = take (w - length (digits_of n)) ''000000'' @ digits_of n"

definition year_of_era :: "int \<Rightarrow> int" where
  "year_of_era doe = (doe - doe div 1460 + doe div 36524 - doe div 146096) div 365"

definition day_of_year :: "int \<Rightarrow> int \<Rightarrow> int" where
  "day_of_year doe yoe = doe - (365 * yoe + yoe div 4 - yoe div 100)"

definition civil_of :: "int \<Rightarrow> int \<Rightarrow> int \<Rightarrow> int \<times> nat \<times> nat" where
  "civil_of y doy mp =
     (if mp < 10 then y else y + 1,
      nat (if mp < 10 then mp + 3 else mp - 9),
      nat (doy - (153 * mp + 2) div 5 + 1))"

definition civil_in_era :: "int \<Rightarrow> int \<Rightarrow> int \<Rightarrow> int \<times> nat \<times> nat" where
  "civil_in_era era doe yoe =
     civil_of (yoe + era * 400) (day_of_year doe yoe) ((5 * day_of_year doe yoe + 2) div 153)"

definition civil_from_days :: "int \<Rightarrow> int \<times> nat \<times> nat" where
  "civil_from_days z =
     civil_in_era ((z + 719468) div 146097) ((z + 719468) mod 146097)
       (year_of_era ((z + 719468) mod 146097))"



definition iso_year :: "int \<Rightarrow> string" where
  "iso_year y =
     (if 0 \<le> y \<and> y \<le> 9999 then pad 4 (nat y)
      else (if y < 0 then ''-'' else ''+'') @ pad 6 (nat \<bar>y\<bar>))"

definition iso_date :: "int \<times> nat \<times> nat \<Rightarrow> string" where
  "iso_date ymd = iso_year (fst ymd) @ ''-'' @ pad 2 (fst (snd ymd)) @ ''-'' @ pad 2 (snd (snd ymd))"

definition iso_time :: "nat \<Rightarrow> string" where
  "iso_time ms =
     pad 2 (ms div 3600000) @ '':'' @ pad 2 (ms div 60000 mod 60) @ '':''
     @ pad 2 (ms div 1000 mod 60) @ ''.'' @ pad 3 (ms mod 1000)"

definition toISOString :: "int \<Rightarrow> string" where
  "toISOString t =
     iso_date (civil_from_days (t div 86400000)) @ ''T'' @ iso_time (nat (t mod 86400000)) @ ''Z''"





subsection \<open>\<open>JSON.stringify\<close>\<close>

fun has_bigint :: "jsval \<Rightarrow> bool"
  and have_bigint :: "jsval list \<Rightarrow> bool"
  and props_have_bigint :: "(string \<times> jsval) list \<Rightarrow> bool" where
  "has_bigint (JBigInt n) = True"
| "has_bigint (JArr vs) = have_bigint vs"
| "has_bigint (JObj ps) = props_have_bigint ps"
| "has_bigint v = False"
| "have_bigint [] = False"
| "have_bigint (v # vs) = (has_bigint v \<or> have_bigint vs)"
| "props_have_bigint [] = False"
| "props_have_bigint ((k, v) # ps) = (has_bigint v \<or> props_have_bigint ps)"

text \<open>
  The text of a value, \<open>None\<close> where \<open>JSON.stringify\<close> gives \<open>undefined\<close>: an
  \<open>undefined\<close> element of an array prints as \<open>null\<close>, an \<open>undefined\<close> property
  is left out, a date prints as the string of \<open>toISOString\<close>.
\<close>

fun ser :: "jsval \<Rightarrow> string option"
  and ser_elems :: "jsval list \<Rightarrow> string list"
  and ser_props :: "(string \<times> jsval) list \<Rightarrow> string list" where
  "ser JUndefined = None"
| "ser JNull = Some ''null''"
| "ser (JBool b) = Some (if b then ''true'' else ''false'')"
| "ser (JNum n) = Some (Number_toString n)"
| "ser (JStr s) = Some (QuoteJSONString s)"
| "ser (JArr vs) = Some (''['' @ commas (ser_elems vs) @ '']'')"
| "ser (JObj ps) = Some (''{'' @ commas (ser_props ps) @ ''}'')"
| "ser (JDate t) = Some (QuoteJSONString (toISOString t))"
| "ser (JBigInt n) = None"
| "ser_elems [] = []"
| "ser_elems (v # vs) = (case ser v of None \<Rightarrow> ''null'' | Some s \<Rightarrow> s) # ser_elems vs"
| "ser_props [] = []"
| "ser_props ((k, v) # ps) =
     (case ser v of
        None \<Rightarrow> ser_props ps
      | Some s \<Rightarrow> (QuoteJSONString k @ '':'' @ s) # ser_props ps)"

definition JSON_stringify :: "jsval \<Rightarrow> js_error + string option" where
  "JSON_stringify v =
     (if has_bigint v then Inl (TypeError ''Do not know how to serialize a BigInt'')
      else Inr (ser v))"

subsection \<open>JSON-representable values\<close>

text \<open>The keys \<open>ks\<close> are in the order of an object that already has the keys \<open>seen\<close>.\<close>

fun js_ordered :: "string list \<Rightarrow> string list \<Rightarrow> bool" where
  "js_ordered seen [] = True"
| "js_ordered seen (k # ks) =
     (k \<notin> set seen
      \<and> (case index_of k of
            Some n \<Rightarrow> list_all (\<lambda>k'. case index_of k' of Some m \<Rightarrow> m < n | None \<Rightarrow> False) seen
          | None \<Rightarrow> True)
      \<and> js_ordered (seen @ [k]) ks)"

text \<open>
  The JSON-representable values of the model: no \<open>undefined\<close>, date or
  \<open>BigInt\<close> inside, integers of at most \<open>2^53\<close> in size, objects with their
  keys in property order.
\<close>

fun json_value :: "jsval \<Rightarrow> bool"
  and json_values :: "jsval list \<Rightarrow> bool"
  and json_props :: "(string \<times> jsval) list \<Rightarrow> bool" where
  "json_value JNull = True"
| "json_value (JBool b) = True"
| "json_value (JNum n) = (\<bar>n\<bar> \<le> 2 ^ 53)"
| "json_value (JStr s) = True"
| "json_value (JArr vs) = json_values vs"
| "json_value (JObj ps) = (js_ordered [] (map fst ps) \<and> json_props ps)"
| "json_value JUndefined = False"
| "json_value (JDate t) = False"
| "json_value (JBigInt n) = False"
| "json_values [] = True"
| "json_values (v # vs) = (json_value v \<and> json_values vs)"
| "json_props [] = True"
| "json_props ((k, v) # ps) = (json_value v \<and> json_props ps)"

subsection \<open>\<open>JSON.parse\<close>\<close>

text \<open>
  A parsed value, whether it is exact in the model, and the rest of the text;
  \<open>Bad\<close> is a syntax error. The recursion of the grammar runs on a bound that
  the top level sets to the length of the text; \<open>Starved\<close> is the bound running
  out.
\<close>

datatype 'a got = Got 'a bool string | Bad | Starved

definition is_ws :: "char \<Rightarrow> bool" where
  "is_ws c = (c = CHR 0x20 \<or> c = CHR 0x09 \<or> c = CHR 0x0A \<or> c = CHR 0x0D)"

definition skip_ws :: "string \<Rightarrow> string" where
  "skip_ws cs = dropWhile is_ws cs"

definition unescape :: "char \<Rightarrow> char option" where
  "unescape e =
     (if e = dquote then Some dquote
      else if e = bslash then Some bslash
      else if e = CHR ''/'' then Some (CHR ''/'')
      else if e = CHR ''b'' then Some (CHR 0x08)
      else if e = CHR ''f'' then Some (CHR 0x0C)
      else if e = CHR ''n'' then Some (CHR 0x0A)
      else if e = CHR ''r'' then Some (CHR 0x0D)
      else if e = CHR ''t'' then Some (CHR 0x09)
      else None)"

text \<open>The characters of a string literal after its opening quote.\<close>

fun pstring :: "string \<Rightarrow> (string \<times> bool \<times> string) option" where
  "pstring [] = None"
| "pstring (c # cs) =
     (if c = dquote then Some ([], True, cs)
      else if c = bslash then
        (case cs of
           [] \<Rightarrow> None
         | e # r \<Rightarrow>
             if e = CHR ''u'' then
               (case r of
                  h1 # h2 # h3 # h4 # r' \<Rightarrow>
                    (case (hex_val h1, hex_val h2, hex_val h3, hex_val h4) of
                       (Some a, Some b, Some c', Some d) \<Rightarrow>
                         map_option
                           (\<lambda>(s, x, t). (char_of (4096 * a + 256 * b + 16 * c' + d) # s,
                                           x \<and> 4096 * a + 256 * b + 16 * c' + d < 256, t))
                           (pstring r')
                     | _ \<Rightarrow> None)
                | _ \<Rightarrow> None)
             else (case unescape e of
                     None \<Rightarrow> None
                   | Some ch \<Rightarrow> map_option (\<lambda>(s, x, t). (ch # s, x, t)) (pstring r)))
      else if of_char c < (32::nat) then None
      else map_option (\<lambda>(s, x, t). (c # s, x, t)) (pstring cs))"

definition pfraction :: "string \<Rightarrow> (bool \<times> string) option" where
  "pfraction r =
     (if r \<noteq> [] \<and> hd r = CHR ''.''
      then (if takeWhile is_digit (tl r) = [] then None
            else Some (True, dropWhile is_digit (tl r)))
      else Some (False, r))"

definition pexponent :: "string \<Rightarrow> (bool \<times> string) option" where
  "pexponent r =
     (if r \<noteq> [] \<and> (hd r = CHR ''e'' \<or> hd r = CHR ''E'')
      then (let r1 = tl r;
                r2 = (if r1 \<noteq> [] \<and> (hd r1 = CHR ''+'' \<or> hd r1 = CHR ''-'') then tl r1 else r1)
            in if takeWhile is_digit r2 = [] then None
               else Some (True, dropWhile is_digit r2))
      else Some (False, r))"

definition pnumber :: "string \<Rightarrow> jsval got" where
  "pnumber cs =
     (let neg = (cs \<noteq> [] \<and> hd cs = CHR ''-'');
          cs1 = (if neg then tl cs else cs);
          ds = takeWhile is_digit cs1
      in if ds = [] \<or> (length ds > 1 \<and> hd ds = CHR ''0'') then Bad
         else (case pfraction (dropWhile is_digit cs1) of
                 None \<Rightarrow> Bad
               | Some (fr, r2) \<Rightarrow>
                   (case pexponent r2 of
                      None \<Rightarrow> Bad
                    | Some (ex, r3) \<Rightarrow>
                        Got (JNum (if neg then - int (digits_val ds) else int (digits_val ds)))
                            (\<not> fr \<and> \<not> ex \<and> digits_val ds \<le> 2 ^ 53 \<and> \<not> (neg \<and> digits_val ds = 0))
                            r3)))"

definition pliteral :: "string \<Rightarrow> jsval got" where
  "pliteral cs =
     (if take 4 cs = ''true'' then Got (JBool True) True (drop 4 cs)
      else if take 5 cs = ''false'' then Got (JBool False) True (drop 5 cs)
      else if take 4 cs = ''null'' then Got JNull True (drop 4 cs)
      else Bad)"

datatype pmode =
    PValue
  | PElems "jsval list" bool
  | PMember "(string \<times> jsval) list" bool
  | PMembers "(string \<times> jsval) list" bool

text \<open>
  \<open>PValue\<close> reads a value; \<open>PElems acc e\<close> is inside an array after the elements
  \<open>acc\<close>, at a comma or the closing bracket; \<open>PMember acc e\<close> is inside an object
  at a member, \<open>PMembers acc e\<close> after a member, at a comma or the closing brace.
\<close>

primrec pjson :: "nat \<Rightarrow> pmode \<Rightarrow> string \<Rightarrow> jsval got" where
  "pjson 0 md cs = Starved"
| "pjson (Suc n) md cs =
     (case skip_ws cs of
        [] \<Rightarrow> Bad
      | c # r \<Rightarrow>
          (case md of
             PValue \<Rightarrow>
               if c = CHR ''['' then
                 (case skip_ws r of
                    [] \<Rightarrow> Bad
                  | c' # r' \<Rightarrow>
                      if c' = CHR '']'' then Got (JArr []) True r'
                      else (case pjson n PValue r of
                              Got v e r1 \<Rightarrow> pjson n (PElems [v] e) r1
                            | Bad \<Rightarrow> Bad
                            | Starved \<Rightarrow> Starved))
               else if c = CHR ''{'' then
                 (case skip_ws r of
                    [] \<Rightarrow> Bad
                  | c' # r' \<Rightarrow>
                      if c' = CHR ''}'' then Got (JObj []) True r'
                      else pjson n (PMember [] True) r)
               else if c = dquote then
                 (case pstring r of
                    Some (s, e, r1) \<Rightarrow> Got (JStr s) e r1
                  | None \<Rightarrow> Bad)
               else if c = CHR ''-'' \<or> is_digit c then pnumber (c # r)
               else pliteral (c # r)
           | PElems acc e \<Rightarrow>
               if c = CHR '','' then
                 (case pjson n PValue r of
                    Got v e1 r1 \<Rightarrow> pjson n (PElems (acc @ [v]) (e \<and> e1)) r1
                  | Bad \<Rightarrow> Bad
                  | Starved \<Rightarrow> Starved)
               else if c = CHR '']'' then Got (JArr acc) e r
               else Bad
           | PMember acc e \<Rightarrow>
               if c = dquote then
                 (case pstring r of
                    None \<Rightarrow> Bad
                  | Some (k, e1, r1) \<Rightarrow>
                      (case skip_ws r1 of
                         [] \<Rightarrow> Bad
                       | c' # r2 \<Rightarrow>
                           if c' = CHR '':'' then
                             (case pjson n PValue r2 of
                                Got v e2 r3 \<Rightarrow>
                                  pjson n (PMembers (define_prop k v acc) (e \<and> e1 \<and> e2)) r3
                              | Bad \<Rightarrow> Bad
                              | Starved \<Rightarrow> Starved)
                           else Bad))
               else Bad
           | PMembers acc e \<Rightarrow>
               if c = CHR '','' then pjson n (PMember acc e) r
               else if c = CHR ''}'' then Got (JObj acc) e r
               else Bad))"

definition JSON_parse :: "string \<Rightarrow> js_error + jsval" where
  "JSON_parse text =
     (case pjson (Suc (length text)) PValue text of
        Got v e r \<Rightarrow>
          if skip_ws r \<noteq> [] then Inl (SyntaxError ''Unexpected token in JSON'')
          else if e then Inr v else Inl OutsideModel
      | Bad \<Rightarrow> Inl (SyntaxError ''Unexpected token in JSON'')
      | Starved \<Rightarrow> Inl OutsideModel)"

text \<open>Where a value may end: at the end of the text, or before a comma or a closing bracket.\<close>

definition at_delimiter :: "string \<Rightarrow> bool" where
  "at_delimiter rest = (rest = [] \<or> hd rest = CHR '','' \<or> hd rest = CHR '']'' \<or> hd rest = CHR ''}'')"

text \<open>
  What \<open>JSON.parse\<close> gives back for a value that \<open>JSON.stringify\<close> printed:
  a date comes back as the text of \<open>toISOString\<close>.
\<close>

fun parsed_back :: "jsval \<Rightarrow> jsval" where
  "parsed_back (JDate t) = JStr (toISOString t)"
| "parsed_back v = v"

section \<open>Browser storage\<close>

text \<open>
  A \<open>Storage\<close> object: its items, and the quota beyond which \<open>setItem\<close> raises
  \<open>QuotaExceededError\<close> (counted over the characters of keys and values).
\<close>

record storage =
  items :: "(string \<times> string) list"
  quota :: nat

definition used :: "(string \<times> string) list \<Rightarrow> nat" where
  "used its = sum_list (map (\<lambda>(k, v). length k + length v) its)"

definition getItem :: "string \<Rightarrow> storage \<Rightarrow> string option" where
  "getItem key s = map_of (items s) key"

definition accepts :: "string \<Rightarrow> string \<Rightarrow> storage \<Rightarrow> bool" where
  "accepts key v s = (used (set_prop key v (items s)) \<le> quota s)"

definition setItem :: "string \<Rightarrow> string \<Rightarrow> storage \<Rightarrow> js_error + storage" where
  "setItem key v s =
     (if accepts key v s then Inr (s \<lparr> items := set_prop key v (items s) \<rparr>)
      else Inl QuotaExceededError)"

definition clear :: "storage \<Rightarrow> storage" where
  "clear s = s \<lparr> items := [] \<rparr>"

datatype storage_type = LOCAL_STORAGE | SESSION_STORAGE

record window =
  localStorage :: storage
  sessionStorage :: storage

fun window_get :: "storage_type \<Rightarrow> window \<Rightarrow> storage" where
  "window_get LOCAL_STORAGE w = localStorage w"
| "window_get SESSION_STORAGE w = sessionStorage w"

fun window_put :: "storage_type \<Rightarrow> storage \<Rightarrow> window \<Rightarrow> window" where
  "window_put LOCAL_STORAGE s w = w \<lparr> localStorage := s \<rparr>"
| "window_put SESSION_STORAGE s w = w \<lparr> sessionStorage := s \<rparr>"

section \<open>The identity provider's context\<close>

text \<open>
  \<open>Msal.UserAgentApplication\<close> is a library outside the repository. The model
  keeps what the service reads from it and what it asks of it: the signed-in
  account, the two progress flags, the outcome of \<open>getCachedTokenInternal\<close> for the
  current account, \<open>config.auth.redirectUri\<close>, and the list of the flows the
  service has started on it.
\<close>

record account_info =
  accountIdentifier :: string
  userName :: string
  idTokenClaims :: "(string \<times> jsval) list option"

record token =
  accessToken :: "string option"
  idToken :: "string option"

datatype provider_call =
    AcquireTokenSilent "string list" "string option" bool
  | LoginRedirect "string list" "string option" bool
  | LoginPopup "string list" "string option" bool
  | HandleRedirectCallback

record msal =
  account :: "account_info option"
  loginInProgress :: bool
  acquireTokenInProgress :: bool
  cachedToken :: "js_error + token option"
  redirectUri :: string
  requests :: "provider_call list"

text \<open>Reading a property of \<open>null\<close>.\<close>

definition null_access :: "string \<Rightarrow> js_error" where
  "null_access prop = TypeError (''Cannot read properties of null: '' @ prop)"

section \<open>Authentication service (aad.service)\<close>

text \<open>
  A promise is kept by its index in \<open>promises\<close>; the index is its identity.
  A promise settles with a session state, a token, an error or \<open>null\<close>.
\<close>

datatype pval = VState session | VToken token | VError js_error | VNull

datatype promise = Pending | Fulfilled pval | Rejected pval

record base_config =
  auth_tokenRefreshUri :: string

text \<open>
  \<open>createConfig\<close>, for the one field the service reads back:
  \<open>auth.tokenRefreshUri\<close>, from the page's origin and the configured path
  (default \<open>/auth\<close>).
\<close>

definition createConfig :: "string \<Rightarrow> string option \<Rightarrow> base_config" where
  "createConfig origin tokenRefreshUri =
     (let t = (case tokenRefreshUri of None \<Rightarrow> ''/auth'' | Some u \<Rightarrow> u)
      in \<lparr> auth_tokenRefreshUri = (if t \<noteq> [] \<and> t \<noteq> ''null'' then origin @ t else origin) \<rparr>)"

text \<open>
  The service object. \<open>disabled\<close> is kept by its truthiness. The source declares
  \<open>authenticatingPromise\<close> and never uses it; \<open>login\<close> reads and writes the
  property \<open>AuthenticatingPromise\<close>, which is \<open>undefined\<close> (\<open>None\<close>) until the
  first \<open>login\<close>. \<open>invocations\<close> logs the calls of listeners and \<open>broadcasts\<close>
  the payloads handed to \<open>observer.trigger\<close>.
\<close>

record service =
  disabled :: bool
  baseConfig :: "base_config option"
  context_msal :: "msal option"
  observer :: observer
  state :: session
  acquireTokenPromise :: "nat option"
  AuthenticatingPromise :: "nat option"
  Error :: "js_error option"
  promises :: "promise list"
  invocations :: "(nat \<times> session) list"
  broadcasts :: "session list"

definition AuthenticationService :: service where
  "AuthenticationService =
     \<lparr> disabled = False, baseConfig = None, context_msal = None, observer = Observer_new,
       state = [], acquireTokenPromise = None, AuthenticatingPromise = None, Error = None,
       promises = [], invocations = [], broadcasts = [] \<rparr>"

text \<open>
  \<open>setState\<close>: the loop over \<open>Object.keys(newState)\<close>. At the first key whose
  value differs, the state is replaced, the observer is triggered and the function
  returns; \<open>None\<close> is the loop running to its end. An exception of a listener
  leaves \<open>trigger\<close> and so \<open>setState\<close>, after the state was replaced.
\<close>

fun setState_loop ::
  "string list \<Rightarrow> session \<Rightarrow> service \<Rightarrow> ((js_error + session) \<times> service) option" where
  "setState_loop [] newState svc = None"
| "setState_loop (key # keys) newState svc =
     (if strict_neq (get_field (state svc) key) (get_field newState key)
      then (let svc1 = svc \<lparr> state := newState \<rparr>;
                (log, r) = trigger (observer svc1) (state svc1);
                svc2 = svc1 \<lparr> invocations := invocations svc1 @ log,
                              broadcasts := broadcasts svc1 @ [state svc1] \<rparr>
            in Some (case r of Some e \<Rightarrow> (Inl e, svc2) | None \<Rightarrow> (Inr (state svc2), svc2)))
      else setState_loop keys newState svc)"

definition setState :: "session \<Rightarrow> service \<Rightarrow> (js_error + session) \<times> service" where
  "setState changes svc =
     (let newState = spread (state svc) changes
      in case setState_loop (map fst newState) newState svc of
           Some r \<Rightarrow> r
         | None \<Rightarrow> (Inr (state svc), svc))"

text \<open>
  \<open>init(config, disabled)\<close>. \<open>fresh\<close> is the context that
  \<open>new Msal.UserAgentApplication\<close> returns, \<open>origin\<close> the page's origin.
\<close>

definition init ::
  "string \<Rightarrow> string option \<Rightarrow> msal \<Rightarrow> bool \<Rightarrow> service \<Rightarrow> (js_error + session) \<times> service" where
  "init origin tokenRefreshUri fresh dis svc =
     (let svc1 = svc \<lparr> disabled := dis \<rparr>;
          svc2 = (if dis then svc1 \<lparr> context_msal := None \<rparr>
                  else svc1 \<lparr> baseConfig := Some (createConfig origin tokenRefreshUri),
                              context_msal := Some fresh \<rparr>)
      in setState
           [(''authenticated'', SBool (dis \<or> account fresh \<noteq> None)),
            (''authenticating'', SBool (\<not> dis \<and> loginInProgress fresh))] svc2)"

definition isDisabled :: "service \<Rightarrow> bool" where
  "isDisabled svc = disabled svc"

definition isAuthenticated :: "service \<Rightarrow> js_error + bool" where
  "isAuthenticated svc =
     (if disabled svc then Inr True
      else case context_msal svc of
             None \<Rightarrow> Inl (null_access ''getAccount'')
           | Some c \<Rightarrow> Inr (account c \<noteq> None))"

definition getAccount :: "service \<Rightarrow> js_error + account_info option" where
  "getAccount svc =
     (if disabled svc then Inr None
      else case context_msal svc of
             None \<Rightarrow> Inl (null_access ''getAccount'')
           | Some c \<Rightarrow> Inr (account c))"

definition getUserName :: "service \<Rightarrow> js_error + string option" where
  "getUserName svc =
     (if disabled svc then Inr None
      else case context_msal svc of
             None \<Rightarrow> Inl (null_access ''getAccount'')
           | Some c \<Rightarrow> Inr (map_option userName (account c)))"

text \<open>
  \<open>getRoles\<close>: \<open>getAccount() ?? {}\<close> leaves \<open>claims\<close> undefined when there is no
  account or the account has no claims, and \<open>hasOwnProperty.call(undefined, ...)\<close>
  raises; with claims that have no \<open>roles\<close> the result is \<open>null\<close>.
\<close>

definition getRoles :: "service \<Rightarrow> js_error + jsval" where
  "getRoles svc =
     (if disabled svc then Inr JNull
      else case getAccount svc of
             Inl e \<Rightarrow> Inl e
           | Inr acct \<Rightarrow>
               (case (case acct of None \<Rightarrow> None | Some a \<Rightarrow> idTokenClaims a) of
                  None \<Rightarrow> Inl (TypeError ''Cannot convert undefined or null to object'')
                | Some claims \<Rightarrow>
                    (case map_of claims ''roles'' of
                       Some roles \<Rightarrow> Inr roles
                     | None \<Rightarrow> Inr JNull)))"

text \<open>
  \<open>acquireTokenInCache\<close>: the \<open>try\<close> covers the read of the context too, so a
  \<open>null\<close> context is caught and raised again; its error has no \<open>errorCode\<close>.
\<close>

definition acquireTokenInCache :: "service \<Rightarrow> window \<Rightarrow> (js_error + token option) \<times> window" where
  "acquireTokenInCache svc w =
     (if disabled svc then (Inr None, w)
      else case (case context_msal svc of
                   None \<Rightarrow> Inl (null_access ''getCachedTokenInternal'')
                 | Some c \<Rightarrow> cachedToken c) of
             Inr t \<Rightarrow> (Inr t, w)
           | Inl error \<Rightarrow>
               (Inl error,
                if errorCode error = Some ''cannot_parse_cache''
                then w \<lparr> localStorage := clear (localStorage w) \<rparr>
                else w))"

text \<open>
  \<open>acquireTokenSilent\<close>. The provider's promise takes the next index, the promise
  that \<open>.finally\<close> derives from it the one after; the first is kept in
  \<open>acquireTokenPromise\<close>, the second is returned. \<open>null\<close> (\<open>Inr None\<close>) when
  disabled.
\<close>

definition acquireTokenSilent ::
  "string list \<Rightarrow> string option \<Rightarrow> bool \<Rightarrow> service \<Rightarrow> (js_error + nat option) \<times> service" where
  "acquireTokenSilent scopes loginHint forceTokenRefresh svc =
     (if disabled svc then (Inr None, svc)
      else case context_msal svc of
             None \<Rightarrow>
               (Inl (null_access (if acquireTokenPromise svc \<noteq> None
                                  then ''getAcquireTokenInProgress''
                                  else ''setAcquireTokenInProgress'')), svc)
           | Some c \<Rightarrow>
               if acquireTokenPromise svc \<noteq> None \<and> acquireTokenInProgress c
               then (Inr (acquireTokenPromise svc), svc)
               else
                 (let c1 = c \<lparr> acquireTokenInProgress := True \<rparr>
                  in case baseConfig svc of
                       None \<Rightarrow> (Inl (null_access ''auth''), svc \<lparr> context_msal := Some c1 \<rparr>)
                     | Some b \<Rightarrow>
                         (let c2 = c1 \<lparr> redirectUri := auth_tokenRefreshUri b \<rparr>;
                              hint = (case loginHint of
                                        Some h \<Rightarrow> Some h
                                      | None \<Rightarrow> map_option userName (account c2));
                              c3 = c2 \<lparr> requests := requests c2 @
                                          [AcquireTokenSilent scopes hint forceTokenRefresh] \<rparr>;
                              p = length (promises svc)
                          in (Inr (Some (Suc p)),
                              svc \<lparr> context_msal := Some c3,
                                    promises := promises svc @ [Pending, Pending],
                                    acquireTokenPromise := Some p \<rparr>))))"

text \<open>
  \<open>cached && cached.accessToken && cached.idToken\<close>: the access token is a string
  (truthy when not empty), the id token an object (truthy when present).
\<close>

definition token_usable :: "token option \<Rightarrow> bool" where
  "token_usable cached =
     (case cached of
        None \<Rightarrow> False
      | Some t \<Rightarrow> (case accessToken t of None \<Rightarrow> False | Some a \<Rightarrow> a \<noteq> []) \<and> idToken t \<noteq> None)"

text \<open>
  The part of \<open>acquireToken\<close>'s executor that asks for a silent token and hangs
  \<open>.then\<close> on the result: calling \<open>.then\<close> on the \<open>null\<close> that
  \<open>acquireTokenSilent\<close> returns when disabled raises a \<open>TypeError\<close>. The result is
  the exception (\<open>Inl\<close>), the value the promise was resolved with (\<open>Inr (Some v)\<close>)
  or neither yet (\<open>Inr None\<close>: the callbacks wait for the provider).
\<close>

definition silent_then ::
  "string list \<Rightarrow> bool \<Rightarrow> service \<Rightarrow> (js_error + pval option) \<times> service" where
  "silent_then scopes forceTokenRefresh svc =
     (case acquireTokenSilent scopes None forceTokenRefresh svc of
        (Inl e, svc1) \<Rightarrow> (Inl e, svc1)
      | (Inr None, svc1) \<Rightarrow> (Inl (null_access ''then''), svc1)
      | (Inr (Some q), svc1) \<Rightarrow> (Inr None, svc1))"

definition acquireToken_executor ::
  "string list \<Rightarrow> bool \<Rightarrow> service \<Rightarrow> window \<Rightarrow> (js_error + pval option) \<times> service \<times> window" where
  "acquireToken_executor scopes forceTokenRefresh svc w =
     (if \<not> forceTokenRefresh
      then (case acquireTokenInCache svc w of
              (Inl e, w1) \<Rightarrow> (Inl e, svc, w1)
            | (Inr cached, w1) \<Rightarrow>
                if token_usable cached
                then (Inr (Some (case cached of Some t \<Rightarrow> VToken t | None \<Rightarrow> VNull)), svc, w1)
                else (let (r, svc1) = silent_then scopes True svc in (r, svc1, w1)))
      else (let (r, svc1) = silent_then scopes forceTokenRefresh svc in (r, svc1, w)))"

text \<open>
  \<open>acquireToken\<close> returns \<open>new Promise(executor).catch(error => Error = error)\<close>.
  An exception of the executor rejects the first promise; the handler stores it in
  \<open>AuthenticationService.Error\<close> and the returned promise is fulfilled with it.
  The two promises take the next two indices; the result is the index of the second.
\<close>

definition acquireToken ::
  "string list \<Rightarrow> bool \<Rightarrow> service \<Rightarrow> window \<Rightarrow> nat \<times> service \<times> window" where
  "acquireToken scopes forceTokenRefresh svc w =
     (let (r, svc1, w1) = acquireToken_executor scopes forceTokenRefresh svc w;
          h = length (promises svc1)
      in case r of
           Inl e \<Rightarrow>
             (Suc h,
              svc1 \<lparr> Error := Some e,
                     promises := promises svc1 @ [Rejected (VError e), Fulfilled (VError e)] \<rparr>, w1)
         | Inr (Some v) \<Rightarrow>
             (Suc h, svc1 \<lparr> promises := promises svc1 @ [Fulfilled v, Fulfilled v] \<rparr>, w1)
         | Inr None \<Rightarrow>
             (Suc h, svc1 \<lparr> promises := promises svc1 @ [Pending, Pending] \<rparr>, w1))"

text \<open>
  \<open>login\<close>. The executor runs inside \<open>new Promise\<close>, before the promise is stored:
  when already authenticated it resolves with the current state; else it sets
  \<open>authenticating\<close> and starts the silent request, whose callbacks settle the
  promise later. An exception inside the executor rejects the promise.
\<close>

datatype login_type = REDIRECT | POPUP

definition login_executor :: "string list \<Rightarrow> service \<Rightarrow> promise \<times> service" where
  "login_executor scopes svc =
     (case isAuthenticated svc of
        Inl e \<Rightarrow> (Rejected (VError e), svc)
      | Inr authenticated \<Rightarrow>
          if authenticated then (Fulfilled (VState (state svc)), svc)
          else (case setState [(''authenticating'', SBool True)] svc of
                  (Inl e, svc1) \<Rightarrow> (Rejected (VError e), svc1)
                | (Inr st, svc1) \<Rightarrow>
                    (case context_msal svc1 of
                       None \<Rightarrow> (Rejected (VError (null_access ''acquireTokenSilent'')), svc1)
                     | Some c \<Rightarrow>
                         (Pending,
                          svc1 \<lparr> context_msal :=
                                   Some (c \<lparr> requests := requests c @
                                              [AcquireTokenSilent scopes None False] \<rparr>) \<rparr>))))"

definition login ::
  "login_type \<Rightarrow> string list \<Rightarrow> string option \<Rightarrow> bool \<Rightarrow> service \<Rightarrow> nat option \<times> service" where
  "login type scopes loginHint forceTokenRefresh svc =
     (if disabled svc then (None, svc)
      else case AuthenticatingPromise svc of
             Some h \<Rightarrow> (Some h, svc)
           | None \<Rightarrow>
               (let (p, svc1) = login_executor scopes svc;
                    h = length (promises svc1)
                in (Some h, svc1 \<lparr> promises := promises svc1 @ [p],
                                    AuthenticatingPromise := Some h \<rparr>)))"

text \<open>A sequence of \<open>login\<close> calls, each with its own options, and what each returns.\<close>

fun logins ::
  "(login_type \<times> string list \<times> string option \<times> bool) list \<Rightarrow> service \<Rightarrow> nat option list \<times> service" where
  "logins [] svc = ([], svc)"
| "logins ((type, scopes, loginHint, forceTokenRefresh) # rest) svc =
     (let (h, svc1) = login type scopes loginHint forceTokenRefresh svc;
          (hs, svc2) = logins rest svc1
      in (h # hs, svc2))"

text \<open>The flows the service has started at the provider so far.\<close>

definition flows :: "service \<Rightarrow> provider_call list" where
  "flows svc = (case context_msal svc of None \<Rightarrow> [] | Some c \<Rightarrow> requests c)"

definition DEFAULT_SCOPES :: "string list" where
  "DEFAULT_SCOPES = [''user.read'']"

section \<open>Persistent cache (cache.util)\<close>

text \<open>\<open>!value\<close> is \<open>\<not> truthy value\<close>.\<close>

fun truthy :: "jsval \<Rightarrow> bool" where
  "truthy JUndefined = False"
| "truthy JNull = False"
| "truthy (JBool b) = b"
| "truthy (JNum n) = (n \<noteq> 0)"
| "truthy (JStr s) = (s \<noteq> [])"
| "truthy (JBigInt n) = (n \<noteq> 0)"
| "truthy v = True"

text \<open>
  \<open>String(value)\<close>, the conversion \<open>setItem\<close> applies to a value that is not a
  string. \<open>write\<close> hands over falsy values only, which are primitive; an object
  prints through its own \<open>toString\<close>, given here for plain objects and left
  empty for arrays and dates.
\<close>

fun ToString :: "jsval \<Rightarrow> string" where
  "ToString JUndefined = ''undefined''"
| "ToString JNull = ''null''"
| "ToString (JBool b) = (if b then ''true'' else ''false'')"
| "ToString (JNum n) = Number_toString n"
| "ToString (JStr s) = s"
| "ToString (JBigInt n) = Number_toString n"
| "ToString (JObj ps) = ''[object Object]''"
| "ToString v = []"

text \<open>
  The text \<open>write\<close> hands to \<open>setItem\<close>, or the exception of
  \<open>JSON.stringify\<close>. Where \<open>JSON.stringify\<close> returns \<open>undefined\<close>,
  \<open>setItem\<close> stores the text \<open>undefined\<close>.
\<close>

definition write_text :: "jsval \<Rightarrow> js_error + string" where
  "write_text v =
     (if \<not> truthy v then Inr (ToString v)
      else case JSON_stringify v of
             Inl e \<Rightarrow> Inl e
           | Inr None \<Rightarrow> Inr ''undefined''
           | Inr (Some t) \<Rightarrow> Inr t)"

text \<open>
  \<open>write\<close> (named \<open>write_cache\<close> here): any exception inside the \<open>try\<close>
  ends in \<open>window[storageType].clear()\<close>.
\<close>

definition write_cache :: "string \<Rightarrow> jsval \<Rightarrow> storage_type \<Rightarrow> window \<Rightarrow> window" where
  "write_cache key v storageType w =
     (case (case write_text v of
              Inl e \<Rightarrow> Inl e
            | Inr t \<Rightarrow> setItem key t (window_get storageType w)) of
        Inr s \<Rightarrow> window_put storageType s w
      | Inl e \<Rightarrow> window_put storageType (clear (window_get storageType w)) w)"

text \<open>
  \<open>read\<close>: \<open>null\<close> for a missing item and for the five texts the source lists;
  else the result of \<open>JSON.parse\<close>, whose exception is not caught.
\<close>

definition read :: "string \<Rightarrow> storage_type \<Rightarrow> window \<Rightarrow> js_error + jsval" where
  "read key storageType w =
     (case getItem key (window_get storageType w) of
        None \<Rightarrow> Inr JNull
      | Some data \<Rightarrow>
          if data = [] \<or> data = ''null'' \<or> data = ''undefined'' \<or> data = ''{}'' \<or> data = ''[]''
          then Inr JNull
          else JSON_parse data)"


text \<open>
  \<open>cache.expiration\<close> and \<open>cache.data\<close> on a parsed value: \<open>undefined\<close> on
  anything that is not an object with that key.
\<close>

definition get_prop :: "jsval \<Rightarrow> string \<Rightarrow> jsval" where
  "get_prop v k =
     (case v of
        JObj ps \<Rightarrow> (case map_of ps k of Some x \<Rightarrow> x | None \<Rightarrow> JUndefined)
      | _ \<Rightarrow> JUndefined)"






section \<open>Observer: properties\<close>

lemma call_each_none_raise:
  "(\<And>cb. Some cb \<in> set cs \<Longrightarrow> cb_raises cb = None) \<Longrightarrow>
   call_each cs args = (map (\<lambda>cb. (cb_tag cb, args)) (List.map_filter (\<lambda>c. c) cs), None)"
  by (induction cs args rule: call_each.induct) (simp_all add: List.map_filter_simps)

lemma call_each_first_raise:
  "List.map_filter (\<lambda>c. c) cs = pre @ cb # post \<Longrightarrow>
   (\<And>c. c \<in> set pre \<Longrightarrow> cb_raises c = None) \<Longrightarrow> cb_raises cb = Some e \<Longrightarrow>
   call_each cs args = (map (\<lambda>c. (cb_tag c, args)) (pre @ [cb]), Some e)"
proof (induction cs args arbitrary: pre rule: call_each.induct)
  case (1 args)
  then show ?case by (simp add: List.map_filter_simps)
next
  case (2 cs args)
  then show ?case by (simp add: List.map_filter_simps)
next
  case (3 c cs args)
  show ?case
  proof (cases pre)
    case Nil
    with 3 show ?thesis by (simp add: List.map_filter_simps)
  next
    case (Cons p pre')
    with "3.prems" have c: "c = p" and rest: "List.map_filter (\<lambda>c. c) cs = pre' @ cb # post"
      by (simp_all add: List.map_filter_simps)
    from "3.prems" Cons have quiet: "cb_raises p = None" and quiet': "\<And>c. c \<in> set pre' \<Longrightarrow> cb_raises c = None"
      by simp_all
    from "3.IH"[OF _ rest quiet' "3.prems"(3)] c quiet
    have "call_each cs args = (map (\<lambda>c. (cb_tag c, args)) (pre' @ [cb]), Some e)"
      by simp
    with c quiet Cons show ?thesis by simp
  qed
qed

lemma map_filter_via_map: "List.map_filter f xs = List.map_filter (\<lambda>c. c) (map f xs)"
  by (induction xs) (simp_all add: List.map_filter_simps split: option.splits)

lemma live_map_filter: "live obs = List.map_filter (\<lambda>c. c) (map snd (subscriptors obs))"
  unfolding live_def by (rule map_filter_via_map)

text \<open>
  C7, at two calls of \<open>subscribe\<close> in the same millisecond: both calls return
  the id \<open>1621446697000\<close>, the registry holds one entry, and a broadcast reaches
  the second listener only.
\<close>

theorem subscribe_same_tick_displaces:
  "fst (subscribe 1621446697000 (Callback 0 None) Observer_new) =
     fst (subscribe 1621446697000 (Callback 1 None)
            (snd (subscribe 1621446697000 (Callback 0 None) Observer_new)))
   \<and> live (snd (subscribe 1621446697000 (Callback 1 None)
            (snd (subscribe 1621446697000 (Callback 0 None) Observer_new)))) = [Callback 1 None]
   \<and> trigger (snd (subscribe 1621446697000 (Callback 1 None)
            (snd (subscribe 1621446697000 (Callback 0 None) Observer_new)))) True
       = ([(1, True)], None)"
  by (simp add: subscribe_def Observer_new_def live_def trigger_def List.map_filter_simps Let_def
      Number_toString_def digits_of.simps digit_char_def
      define_prop_def index_of_def is_digit_def digits_val_def digit_val_def)

text \<open>
  C8 as stated fails: with a first listener that raises and a second, live one,
  \<open>trigger\<close> invokes the first only and the exception leaves it.
\<close>

theorem trigger_isolation_counterexample:
  "live (snd (subscribe 2 (Callback 1 None)
          (snd (subscribe 1 (Callback 0 (Some (Thrown 7))) Observer_new))))
     = [Callback 0 (Some (Thrown 7)), Callback 1 None]
   \<and> trigger (snd (subscribe 2 (Callback 1 None)
          (snd (subscribe 1 (Callback 0 (Some (Thrown 7))) Observer_new)))) True
     = ([(0, True)], Some (Thrown 7))"
  by (simp add: subscribe_def Observer_new_def live_def trigger_def List.map_filter_simps
      Number_toString_def digits_of.simps digit_char_def Let_def
      define_prop_def index_of_def is_digit_def digits_val_def digit_val_def)

text \<open>
  C8, amended: when no registered listener raises, \<open>trigger\<close> invokes every live
  listener once with the payload, in iteration order, and returns; when a listener
  raises, the listeners before it have been invoked, those after it are not, and
  the exception leaves \<open>trigger\<close>.
\<close>

theorem trigger_until_first_raise:
  "((\<forall>cb \<in> set (live obs). cb_raises cb = None) \<longrightarrow>
      trigger obs args = (map (\<lambda>cb. (cb_tag cb, args)) (live obs), None))
   \<and> (live obs = pre @ cb # post \<and> (\<forall>c \<in> set pre. cb_raises c = None) \<and> cb_raises cb = Some e \<longrightarrow>
      trigger obs args = (map (\<lambda>c. (cb_tag c, args)) (pre @ [cb]), Some e))"
proof (intro conjI impI)
  assume quiet: "\<forall>cb \<in> set (live obs). cb_raises cb = None"
  have "\<And>cb. Some cb \<in> set (map snd (subscriptors obs)) \<Longrightarrow> cb_raises cb = None"
  proof -
    fix cb assume "Some cb \<in> set (map snd (subscriptors obs))"
    then have "cb \<in> set (live obs)"
      by (force simp: live_def List.map_filter_def)
    with quiet show "cb_raises cb = None" by blast
  qed
  then show "trigger obs args = (map (\<lambda>cb. (cb_tag cb, args)) (live obs), None)"
    unfolding trigger_def live_map_filter by (rule call_each_none_raise)
next
  assume h: "live obs = pre @ cb # post \<and> (\<forall>c \<in> set pre. cb_raises c = None) \<and> cb_raises cb = Some e"
  then show "trigger obs args = (map (\<lambda>c. (cb_tag c, args)) (pre @ [cb]), Some e)"
    unfolding trigger_def live_map_filter by (intro call_each_first_raise) auto
qed

theorem trigger_until_first_raise_witness:
  "live \<lparr> subscriptors = [(''1'', Some (Callback 5 None)), (''2'', None), (''3'', Some (Callback 2 None))] \<rparr>
       = [Callback 5 None, Callback 2 None]
   \<and> trigger \<lparr> subscriptors = [(''1'', Some (Callback 5 None)), (''2'', None), (''3'', Some (Callback 2 None))] \<rparr> True
       = ([(5, True), (2, True)], None)
   \<and> live \<lparr> subscriptors = [(''1'', Some (Callback 5 None)), (''2'', Some (Callback 3 (Some (Thrown 7)))),
                              (''3'', Some (Callback 4 None))] \<rparr>
       = [Callback 5 None] @ Callback 3 (Some (Thrown 7)) # [Callback 4 None]
   \<and> trigger \<lparr> subscriptors = [(''1'', Some (Callback 5 None)), (''2'', Some (Callback 3 (Some (Thrown 7)))),
                                 (''3'', Some (Callback 4 None))] \<rparr> True
       = ([(5, True), (3, True)], Some (Thrown 7))"
proof -
  let ?a = "\<lparr> subscriptors = [(''1'', Some (Callback 5 None)), (''2'', None), (''3'', Some (Callback 2 None))] \<rparr>"
  let ?b = "\<lparr> subscriptors = [(''1'', Some (Callback 5 None)), (''2'', Some (Callback 3 (Some (Thrown 7)))),
                              (''3'', Some (Callback 4 None))] \<rparr>"
  have la: "live ?a = [Callback 5 None, Callback 2 None]"
    by (simp add: live_def List.map_filter_simps)
  have lb: "live ?b = [Callback 5 None] @ Callback 3 (Some (Thrown 7)) # [Callback 4 None]"
    by (simp add: live_def List.map_filter_simps)
  have qa: "\<forall>cb \<in> set (live ?a). cb_raises cb = None"
    unfolding la by simp
  from trigger_until_first_raise [of ?a True "[Callback 5 None]" "Callback 3 (Some (Thrown 7))" "[Callback 4 None]" "Thrown 7"] qa
  have ta: "trigger ?a True = (map (\<lambda>cb. (cb_tag cb, True)) (live ?a), None)"
    by blast
  from trigger_until_first_raise [of ?b True "[Callback 5 None]" "Callback 3 (Some (Thrown 7))" "[Callback 4 None]" "Thrown 7"] lb
  have tb: "trigger ?b True = (map (\<lambda>c. (cb_tag c, True)) ([Callback 5 None] @ [Callback 3 (Some (Thrown 7))]), Some (Thrown 7))"
    by simp
  have ta': "trigger ?a True = ([(5, True), (2, True)], None)"
    using ta unfolding la by simp
  show ?thesis using ta' tb la lb by simp
qed

section \<open>Session state: properties\<close>

lemma setState_loop_unchanged:
  "\<not> (\<exists>key \<in> set keys. strict_neq (get_field (state svc) key) (get_field newState key)) \<Longrightarrow>
   setState_loop keys newState svc = None"
  by (induction keys) simp_all

lemma setState_loop_changed:
  "\<exists>key \<in> set keys. strict_neq (get_field (state svc) key) (get_field newState key) \<Longrightarrow>
   setState_loop keys newState svc =
     Some (case snd (trigger (observer svc) newState) of
             Some e \<Rightarrow> Inl e
           | None \<Rightarrow> Inr newState,
           svc \<lparr> state := newState,
                 invocations := invocations svc @ fst (trigger (observer svc) newState),
                 broadcasts := broadcasts svc @ [newState] \<rparr>)"
proof (induction keys)
  case Nil
  then show ?case by simp
next
  case (Cons key keys)
  show ?case
  proof (cases "strict_neq (get_field (state svc) key) (get_field newState key)")
    case True
    then show ?thesis
      by (cases "trigger (observer svc) newState") (auto split: option.splits)
  next
    case False
    with Cons.prems have "\<exists>key \<in> set keys. strict_neq (get_field (state svc) key) (get_field newState key)"
      by auto
    with Cons.IH False show ?thesis by simp
  qed
qed

lemma setState_unchanged:
  assumes "\<not> (\<exists>key \<in> set (map fst (spread (state svc) changes)).
         strict_neq (get_field (state svc) key) (get_field (spread (state svc) changes) key))"
  shows "setState changes svc = (Inr (state svc), svc)"
proof -
  have "setState_loop (map fst (spread (state svc) changes)) (spread (state svc) changes) svc = None"
    using assms by (rule setState_loop_unchanged)
  then show ?thesis by (simp add: setState_def Let_def)
qed

lemma setState_changed:
  assumes "\<exists>key \<in> set (map fst (spread (state svc) changes)).
       strict_neq (get_field (state svc) key) (get_field (spread (state svc) changes) key)"
  shows "setState changes svc =
     (case snd (trigger (observer svc) (spread (state svc) changes)) of
        Some e \<Rightarrow> Inl e
      | None \<Rightarrow> Inr (spread (state svc) changes),
      svc \<lparr> state := spread (state svc) changes,
            invocations := invocations svc @ fst (trigger (observer svc) (spread (state svc) changes)),
            broadcasts := broadcasts svc @ [spread (state svc) changes] \<rparr>)"
proof -
  note setState_loop_changed [OF assms]
  then show ?thesis by (simp add: setState_def Let_def)
qed

text \<open>What \<open>setState\<close> leaves alone, whatever it does to the state.\<close>

lemma setState_frame:
  "disabled (snd (setState changes svc)) = disabled svc
   \<and> context_msal (snd (setState changes svc)) = context_msal svc
   \<and> AuthenticatingPromise (snd (setState changes svc)) = AuthenticatingPromise svc
   \<and> promises (snd (setState changes svc)) = promises svc"
proof (cases "\<exists>key \<in> set (map fst (spread (state svc) changes)).
       strict_neq (get_field (state svc) key) (get_field (spread (state svc) changes) key)")
  case True
  show ?thesis unfolding setState_changed [OF True] by simp
next
  case False
  show ?thesis unfolding setState_unchanged [OF False] by simp
qed



section \<open>Authentication service: properties\<close>

text \<open>
  C6. When the provider's cache lookup raises \<open>error\<close>, \<open>acquireTokenInCache\<close>
  raises that same error; the local storage has been emptied when the error's code
  is \<open>cannot_parse_cache\<close>, and the window is as it was for any other error.
\<close>

theorem acquireTokenInCache_clears_on_corrupt_cache:
  assumes "\<not> disabled svc" and "context_msal svc = Some c" and "cachedToken c = Inl error"
  shows "fst (acquireTokenInCache svc w) = Inl error
         \<and> (errorCode error = Some ''cannot_parse_cache'' \<longrightarrow>
              items (localStorage (snd (acquireTokenInCache svc w))) = []
              \<and> snd (acquireTokenInCache svc w) = w \<lparr> localStorage := clear (localStorage w) \<rparr>)
         \<and> (errorCode error \<noteq> Some ''cannot_parse_cache'' \<longrightarrow>
              snd (acquireTokenInCache svc w) = w)"
  using assms by (simp add: acquireTokenInCache_def clear_def)

theorem acquireTokenInCache_clears_on_corrupt_cache_witness:
  "fst (acquireTokenInCache
          (AuthenticationService \<lparr> context_msal := Some \<lparr> account = None, loginInProgress = False,
              acquireTokenInProgress = False, cachedToken = Inl (ProviderError ''cannot_parse_cache''),
              redirectUri = [], requests = [] \<rparr> \<rparr>)
          \<lparr> localStorage = \<lparr> items = [(''msal.idtoken'', ''x''), (''other'', ''y'')], quota = 100 \<rparr>,
            sessionStorage = \<lparr> items = [(''s'', ''t'')], quota = 100 \<rparr> \<rparr>)
     = Inl (ProviderError ''cannot_parse_cache'')
   \<and> snd (acquireTokenInCache
          (AuthenticationService \<lparr> context_msal := Some \<lparr> account = None, loginInProgress = False,
              acquireTokenInProgress = False, cachedToken = Inl (ProviderError ''cannot_parse_cache''),
              redirectUri = [], requests = [] \<rparr> \<rparr>)
          \<lparr> localStorage = \<lparr> items = [(''msal.idtoken'', ''x''), (''other'', ''y'')], quota = 100 \<rparr>,
            sessionStorage = \<lparr> items = [(''s'', ''t'')], quota = 100 \<rparr> \<rparr>)
     = \<lparr> localStorage = \<lparr> items = [], quota = 100 \<rparr>,
         sessionStorage = \<lparr> items = [(''s'', ''t'')], quota = 100 \<rparr> \<rparr>
   \<and> snd (acquireTokenInCache
          (AuthenticationService \<lparr> context_msal := Some \<lparr> account = None, loginInProgress = False,
              acquireTokenInProgress = False, cachedToken = Inl (ProviderError ''user_login_error''),
              redirectUri = [], requests = [] \<rparr> \<rparr>)
          \<lparr> localStorage = \<lparr> items = [(''msal.idtoken'', ''x''), (''other'', ''y'')], quota = 100 \<rparr>,
            sessionStorage = \<lparr> items = [(''s'', ''t'')], quota = 100 \<rparr> \<rparr>)
     = \<lparr> localStorage = \<lparr> items = [(''msal.idtoken'', ''x''), (''other'', ''y'')], quota = 100 \<rparr>,
         sessionStorage = \<lparr> items = [(''s'', ''t'')], quota = 100 \<rparr> \<rparr>"
proof -
  let ?c = "\<lambda>code. \<lparr> account = None, loginInProgress = False, acquireTokenInProgress = False,
                cachedToken = Inl (ProviderError code), redirectUri = [], requests = [] \<rparr>"
  let ?svc = "\<lambda>code. AuthenticationService \<lparr> context_msal := Some (?c code) \<rparr>"
  let ?w = "\<lparr> localStorage = \<lparr> items = [(''msal.idtoken'', ''x''), (''other'', ''y'')], quota = 100 \<rparr>,
             sessionStorage = \<lparr> items = [(''s'', ''t'')], quota = 100 \<rparr> \<rparr>"
  have d: "\<And>code. \<not> disabled (?svc code)" "\<And>code. context_msal (?svc code) = Some (?c code)"
    "\<And>code. cachedToken (?c code) = Inl (ProviderError code)"
    by (simp_all add: AuthenticationService_def)
  from acquireTokenInCache_clears_on_corrupt_cache [OF d(1) d(2) d(3), of "''cannot_parse_cache''" ?w]
  have a: "fst (acquireTokenInCache (?svc ''cannot_parse_cache'') ?w) = Inl (ProviderError ''cannot_parse_cache'')
           \<and> snd (acquireTokenInCache (?svc ''cannot_parse_cache'') ?w) = ?w \<lparr> localStorage := clear (localStorage ?w) \<rparr>"
    by simp
  from acquireTokenInCache_clears_on_corrupt_cache [OF d(1) d(2) d(3), of "''user_login_error''" ?w]
  have b: "snd (acquireTokenInCache (?svc ''user_login_error'') ?w) = ?w"
    by simp
  from a b show ?thesis by (simp add: clear_def)
qed

text \<open>
  C9 as stated fails: with an account whose claims carry a name and no \<open>roles\<close>,
  \<open>getRoles\<close> returns \<open>null\<close>; nothing is raised.
\<close>

theorem getRoles_missing_claim_counterexample:
  "getRoles (AuthenticationService \<lparr> context_msal := Some \<lparr> account = Some \<lparr> accountIdentifier = ''id-1'',
        userName = ''ada@example.org'', idTokenClaims = Some [(''name'', JStr ''Ada'')] \<rparr>,
      loginInProgress = False, acquireTokenInProgress = False, cachedToken = Inr None,
      redirectUri = [], requests = [] \<rparr> \<rparr>) = Inr JNull"
  by (simp add: getRoles_def getAccount_def AuthenticationService_def)

text \<open>
  C9, amended: when authentication is not disabled and the current account has
  identity-token claims without a \<open>roles\<close> entry, \<open>getRoles\<close> returns \<open>null\<close>
  and raises nothing.
\<close>

theorem getRoles_without_roles_is_null:
  assumes "\<not> disabled svc" and "context_msal svc = Some c" and "account c = Some a"
    and "idTokenClaims a = Some claims" and "map_of claims ''roles'' = None"
  shows "getRoles svc = Inr JNull"
  using assms by (simp add: getRoles_def getAccount_def)

theorem getRoles_without_roles_is_null_witness:
  "getRoles (AuthenticationService \<lparr> context_msal := Some \<lparr> account = Some \<lparr> accountIdentifier = ''id-2'',
        userName = ''bob@example.org'', idTokenClaims = Some [] \<rparr>,
      loginInProgress = False, acquireTokenInProgress = False, cachedToken = Inr None,
      redirectUri = [], requests = [] \<rparr> \<rparr>) = Inr JNull"
proof -
  let ?a = "\<lparr> accountIdentifier = ''id-2'', userName = ''bob@example.org'', idTokenClaims = Some [] \<rparr>"
  let ?c = "\<lparr> account = Some ?a, loginInProgress = False, acquireTokenInProgress = False,
             cachedToken = Inr None, redirectUri = [], requests = [] \<rparr>"
  let ?svc = "AuthenticationService \<lparr> context_msal := Some ?c \<rparr>"
  have "\<not> disabled ?svc" and "context_msal ?svc = Some ?c" and "account ?c = Some ?a"
    and "idTokenClaims ?a = Some []" and "map_of ([] :: (string \<times> jsval) list) ''roles'' = None"
    by (simp_all add: AuthenticationService_def)
  then show ?thesis by (rule getRoles_without_roles_is_null)
qed

text \<open>What the executor of \<open>login\<close> leaves alone.\<close>

lemma login_executor_frame:
  "disabled (snd (login_executor scopes svc)) = disabled svc
   \<and> AuthenticatingPromise (snd (login_executor scopes svc)) = AuthenticatingPromise svc
   \<and> promises (snd (login_executor scopes svc)) = promises svc"
proof -
  obtain r svc1 where s: "setState [(''authenticating'', SBool True)] svc = (r, svc1)"
    by (cases "setState [(''authenticating'', SBool True)] svc")
  from setState_frame [of "[(''authenticating'', SBool True)]" svc] s
  have "disabled svc1 = disabled svc \<and> AuthenticatingPromise svc1 = AuthenticatingPromise svc
        \<and> promises svc1 = promises svc"
    by simp
  with s show ?thesis
    by (auto simp: login_executor_def split: sum.splits option.splits)
qed

lemma login_again:
  "\<not> disabled svc \<Longrightarrow> AuthenticatingPromise svc = Some h \<Longrightarrow>
   login type scopes loginHint forceTokenRefresh svc = (Some h, svc)"
  by (simp add: login_def)

lemma logins_again:
  "\<not> disabled svc \<Longrightarrow> AuthenticatingPromise svc = Some h \<Longrightarrow>
   logins calls svc = (replicate (length calls) (Some h), svc)"
  by (induction calls) (auto simp: login_again)

lemma login_first:
  assumes "\<not> disabled svc" and "AuthenticatingPromise svc = None"
  shows "fst (login type scopes loginHint forceTokenRefresh svc) = Some (length (promises svc))
         \<and> AuthenticatingPromise (snd (login type scopes loginHint forceTokenRefresh svc))
             = Some (length (promises svc))
         \<and> \<not> disabled (snd (login type scopes loginHint forceTokenRefresh svc))
         \<and> promises (snd (login type scopes loginHint forceTokenRefresh svc))
             = promises svc @ [fst (login_executor scopes svc)]"
proof -
  obtain p svc1 where e: "login_executor scopes svc = (p, svc1)"
    by (cases "login_executor scopes svc")
  with login_executor_frame [of scopes svc]
  have "disabled svc1 = disabled svc" and "promises svc1 = promises svc" by simp_all
  with assms e show ?thesis by (simp add: login_def Let_def)
qed

lemma login_handle:
  assumes "\<not> disabled svc"
  shows "\<exists>h. fst (login type scopes loginHint forceTokenRefresh svc) = Some h
           \<and> AuthenticatingPromise (snd (login type scopes loginHint forceTokenRefresh svc)) = Some h
           \<and> \<not> disabled (snd (login type scopes loginHint forceTokenRefresh svc))"
proof (cases "AuthenticatingPromise svc")
  case None
  with login_first [OF assms None, of type scopes loginHint forceTokenRefresh] show ?thesis by blast
next
  case (Some h)
  with assms show ?thesis by (simp add: login_again)
qed

lemma login_executor_authenticated:
  "isAuthenticated svc = Inr True \<Longrightarrow> login_executor scopes svc = (Fulfilled (VState (state svc)), svc)"
  by (simp add: login_executor_def)

lemma login_executor_starts_silent_flow:
  assumes "isAuthenticated svc = Inr False"
    and "fst (setState [(''authenticating'', SBool True)] svc) = Inr st"
  shows "fst (login_executor scopes svc) = Pending
         \<and> flows (snd (login_executor scopes svc)) = flows svc @ [AcquireTokenSilent scopes None False]"
proof -
  obtain svc1 where s: "setState [(''authenticating'', SBool True)] svc = (Inr st, svc1)"
    using assms(2) by (cases "setState [(''authenticating'', SBool True)] svc") simp
  from assms(1) obtain c where c: "context_msal svc = Some c"
    by (auto simp: isAuthenticated_def split: if_splits option.splits)
  from setState_frame [of "[(''authenticating'', SBool True)]" svc] s c
  have c1: "context_msal svc1 = Some c" by simp
  from assms(1) s c c1 show ?thesis
    by (simp add: login_executor_def flows_def)
qed

text \<open>
  C1. In a sequence of \<open>login\<close> calls on an enabled service, every call returns
  the handle that the first call returns, and the calls after the first change
  nothing: the service after the whole sequence is the service after the first
  call, so no further flow is started. When no handle was set and
  \<open>isAuthenticated()\<close> is true as the first call starts, that handle's promise
  is fulfilled at once with the current session state and the provider is not
  asked. When no handle was set, \<open>isAuthenticated()\<close> is false and the
  broadcast of \<open>authenticating\<close> returns, the promise is pending and the whole
  sequence has started one silent flow.
\<close>

theorem login_singleton:
  assumes "\<not> disabled svc"
  shows "\<exists>h. logins ((type, scopes, loginHint, forceTokenRefresh) # calls) svc
               = (replicate (Suc (length calls)) (Some h),
                  snd (login type scopes loginHint forceTokenRefresh svc))
           \<and> AuthenticatingPromise (snd (login type scopes loginHint forceTokenRefresh svc)) = Some h
           \<and> (AuthenticatingPromise svc = None \<and> isAuthenticated svc = Inr True \<longrightarrow>
                h = length (promises svc)
                \<and> promises (snd (login type scopes loginHint forceTokenRefresh svc)) ! h
                    = Fulfilled (VState (state svc))
                \<and> state (snd (login type scopes loginHint forceTokenRefresh svc)) = state svc
                \<and> context_msal (snd (login type scopes loginHint forceTokenRefresh svc)) = context_msal svc)
           \<and> (AuthenticatingPromise svc = None \<and> isAuthenticated svc = Inr False
                \<and> fst (setState [(''authenticating'', SBool True)] svc) = Inr st \<longrightarrow>
                promises (snd (login type scopes loginHint forceTokenRefresh svc)) ! h = Pending
                \<and> flows (snd (logins ((type, scopes, loginHint, forceTokenRefresh) # calls) svc))
                    = flows svc @ [AcquireTokenSilent scopes None False])"
proof -
  let ?first = "login type scopes loginHint forceTokenRefresh svc"
  let ?all = "logins ((type, scopes, loginHint, forceTokenRefresh) # calls) svc"
  from login_handle [OF assms, of type scopes loginHint forceTokenRefresh]
  obtain h where h: "fst ?first = Some h" "AuthenticatingPromise (snd ?first) = Some h"
    "\<not> disabled (snd ?first)"
    by blast
  from logins_again [OF h(3) h(2), of calls]
  have rest: "logins calls (snd ?first) = (replicate (length calls) (Some h), snd ?first)" .
  have seq: "?all = (replicate (Suc (length calls)) (Some h), snd ?first)"
    using h(1) rest by (cases ?first) simp
  have now: "AuthenticatingPromise svc = None \<and> isAuthenticated svc = Inr True \<longrightarrow>
                h = length (promises svc)
                \<and> promises (snd ?first) ! h = Fulfilled (VState (state svc))
                \<and> state (snd ?first) = state svc
                \<and> context_msal (snd ?first) = context_msal svc"
  proof
    assume a: "AuthenticatingPromise svc = None \<and> isAuthenticated svc = Inr True"
    then have e: "login_executor scopes svc = (Fulfilled (VState (state svc)), svc)"
      by (simp add: login_executor_authenticated)
    from a assms e have l: "?first = (Some (length (promises svc)),
        svc \<lparr> promises := promises svc @ [Fulfilled (VState (state svc))],
              AuthenticatingPromise := Some (length (promises svc)) \<rparr>)"
      by (simp add: login_def Let_def)
    with h(1) have "h = length (promises svc)" by simp
    with l show "h = length (promises svc)
                \<and> promises (snd ?first) ! h = Fulfilled (VState (state svc))
                \<and> state (snd ?first) = state svc
                \<and> context_msal (snd ?first) = context_msal svc"
      by simp
  qed
  have later: "AuthenticatingPromise svc = None \<and> isAuthenticated svc = Inr False
                \<and> fst (setState [(''authenticating'', SBool True)] svc) = Inr st \<longrightarrow>
                promises (snd ?first) ! h = Pending
                \<and> flows (snd ?all) = flows svc @ [AcquireTokenSilent scopes None False]"
  proof
    assume a: "AuthenticatingPromise svc = None \<and> isAuthenticated svc = Inr False
                \<and> fst (setState [(''authenticating'', SBool True)] svc) = Inr st"
    obtain p svc1 where e: "login_executor scopes svc = (p, svc1)"
      by (cases "login_executor scopes svc")
    from a login_executor_starts_silent_flow [of svc st scopes] e
    have p: "p = Pending" and f: "flows svc1 = flows svc @ [AcquireTokenSilent scopes None False]"
      by simp_all
    from login_executor_frame [of scopes svc] e have pr: "promises svc1 = promises svc" by simp
    from a assms e have l: "?first = (Some (length (promises svc1)),
        svc1 \<lparr> promises := promises svc1 @ [p], AuthenticatingPromise := Some (length (promises svc1)) \<rparr>)"
      by (simp add: login_def Let_def)
    with h(1) have hh: "h = length (promises svc1)" by simp
    from l f have fl: "flows (snd ?first) = flows svc @ [AcquireTokenSilent scopes None False]"
      by (simp add: flows_def)
    from l hh p have "promises (snd ?first) ! h = Pending" by simp
    with fl seq show "promises (snd ?first) ! h = Pending
                \<and> flows (snd ?all) = flows svc @ [AcquireTokenSilent scopes None False]"
      by simp
  qed
  from seq h(2) now later show ?thesis by blast
qed

theorem login_singleton_witness:
  "logins [(REDIRECT, DEFAULT_SCOPES, None, False), (POPUP, DEFAULT_SCOPES, None, True),
           (REDIRECT, [], Some ''ada@example.org'', False)]
     (AuthenticationService \<lparr> context_msal := Some \<lparr> account = Some \<lparr> accountIdentifier = ''id-1'',
          userName = ''ada@example.org'', idTokenClaims = None \<rparr>,
        loginInProgress = False, acquireTokenInProgress = False, cachedToken = Inr None,
        redirectUri = [], requests = [] \<rparr>,
        state := [(''authenticated'', SBool True), (''authenticating'', SBool False)] \<rparr>)
   = ([Some 0, Some 0, Some 0],
      AuthenticationService \<lparr> context_msal := Some \<lparr> account = Some \<lparr> accountIdentifier = ''id-1'',
          userName = ''ada@example.org'', idTokenClaims = None \<rparr>,
        loginInProgress = False, acquireTokenInProgress = False, cachedToken = Inr None,
        redirectUri = [], requests = [] \<rparr>,
        state := [(''authenticated'', SBool True), (''authenticating'', SBool False)],
        promises := [Fulfilled (VState [(''authenticated'', SBool True), (''authenticating'', SBool False)])],
        AuthenticatingPromise := Some 0 \<rparr>)
   \<and> flows (snd (logins [(REDIRECT, DEFAULT_SCOPES, None, False), (POPUP, DEFAULT_SCOPES, None, False)]
        (AuthenticationService \<lparr> context_msal := Some \<lparr> account = None,
            loginInProgress = False, acquireTokenInProgress = False, cachedToken = Inr None,
            redirectUri = [], requests = [] \<rparr>,
          state := [(''authenticated'', SBool False), (''authenticating'', SBool False)] \<rparr>)))
     = [AcquireTokenSilent DEFAULT_SCOPES None False]"
proof -
  let ?svc = "AuthenticationService \<lparr> context_msal := Some \<lparr> account = Some \<lparr> accountIdentifier = ''id-1'',
          userName = ''ada@example.org'', idTokenClaims = None \<rparr>,
        loginInProgress = False, acquireTokenInProgress = False, cachedToken = Inr None,
        redirectUri = [], requests = [] \<rparr>,
        state := [(''authenticated'', SBool True), (''authenticating'', SBool False)] \<rparr>"
  let ?out = "AuthenticationService \<lparr> context_msal := Some \<lparr> account = None,
            loginInProgress = False, acquireTokenInProgress = False, cachedToken = Inr None,
            redirectUri = [], requests = [] \<rparr>,
          state := [(''authenticated'', SBool False), (''authenticating'', SBool False)] \<rparr>"
  have en: "\<not> disabled ?svc" by (simp add: AuthenticationService_def)
  have first: "login REDIRECT DEFAULT_SCOPES None False ?svc =
      (Some 0, ?svc \<lparr> promises := [Fulfilled (VState [(''authenticated'', SBool True), (''authenticating'', SBool False)])],
                       AuthenticatingPromise := Some 0 \<rparr>)"
    by (simp add: login_def login_executor_def isAuthenticated_def AuthenticationService_def Let_def)
  from login_singleton [OF en, where type = REDIRECT and scopes = DEFAULT_SCOPES and loginHint = None
      and forceTokenRefresh = False
      and calls = "[(POPUP, DEFAULT_SCOPES, None, True), (REDIRECT, [], Some ''ada@example.org'', False)]"]
  obtain h where h: "logins [(REDIRECT, DEFAULT_SCOPES, None, False), (POPUP, DEFAULT_SCOPES, None, True),
           (REDIRECT, [], Some ''ada@example.org'', False)] ?svc
        = (replicate 3 (Some h), snd (login REDIRECT DEFAULT_SCOPES None False ?svc))"
    and a: "AuthenticatingPromise (snd (login REDIRECT DEFAULT_SCOPES None False ?svc)) = Some h"
    by (auto simp: numeral_3_eq_3)
  from a have "h = 0" unfolding first by simp
  with h have 1: "logins [(REDIRECT, DEFAULT_SCOPES, None, False), (POPUP, DEFAULT_SCOPES, None, True),
           (REDIRECT, [], Some ''ada@example.org'', False)] ?svc
      = ([Some 0, Some 0, Some 0],
         ?svc \<lparr> promises := [Fulfilled (VState [(''authenticated'', SBool True), (''authenticating'', SBool False)])],
                AuthenticatingPromise := Some 0 \<rparr>)"
    unfolding first by (simp add: numeral_3_eq_3)
  have en': "\<not> disabled ?out" and none: "AuthenticatingPromise ?out = None"
    and na: "isAuthenticated ?out = Inr False" and fl: "flows ?out = []"
    by (simp_all add: AuthenticationService_def isAuthenticated_def flows_def)
  have st: "fst (setState [(''authenticating'', SBool True)] ?out)
      = Inr [(''authenticated'', SBool False), (''authenticating'', SBool True)]"
    by (simp add: setState_def spread_def define_prop_def index_of_def is_digit_def get_field_def
        trigger_def AuthenticationService_def Observer_new_def Let_def)
  from login_singleton [OF en', where type = REDIRECT and scopes = DEFAULT_SCOPES and loginHint = None
      and forceTokenRefresh = False and calls = "[(POPUP, DEFAULT_SCOPES, None, False)]"
      and st = "[(''authenticated'', SBool False), (''authenticating'', SBool True)]"] none na st
  have 2: "flows (snd (logins [(REDIRECT, DEFAULT_SCOPES, None, False), (POPUP, DEFAULT_SCOPES, None, False)] ?out))
      = flows ?out @ [AcquireTokenSilent DEFAULT_SCOPES None False]"
    by blast
  from 1 2 fl show ?thesis by simp
qed

text \<open>
  C5, on the service as \<open>init\<close> leaves it with \<open>disabled\<close> true:
  \<open>isAuthenticated()\<close> is true and \<open>login()\<close> returns \<open>null\<close> and changes
  nothing; \<open>acquireToken()\<close> asks nothing of the provider either, but its executor
  calls \<open>.then\<close> on the \<open>null\<close> that \<open>acquireTokenSilent\<close> returns: a
  \<open>TypeError\<close> is raised, stored in \<open>AuthenticationService.Error\<close>, and the
  returned promise is fulfilled with that error.
\<close>

theorem acquireToken_disabled_raises_internally:
  "isAuthenticated (snd (init origin tokenRefreshUri fresh True AuthenticationService)) = Inr True
   \<and> login type scopes loginHint forceTokenRefresh
        (snd (init origin tokenRefreshUri fresh True AuthenticationService))
       = (None, snd (init origin tokenRefreshUri fresh True AuthenticationService))
   \<and> context_msal (snd (init origin tokenRefreshUri fresh True AuthenticationService)) = None
   \<and> acquireToken scopes forceTokenRefresh
        (snd (init origin tokenRefreshUri fresh True AuthenticationService)) w
       = (Suc 0,
          (snd (init origin tokenRefreshUri fresh True AuthenticationService))
            \<lparr> Error := Some (null_access ''then''),
              promises := [Rejected (VError (null_access ''then'')),
                           Fulfilled (VError (null_access ''then''))] \<rparr>,
          w)"
proof -
  let ?svc = "snd (init origin tokenRefreshUri fresh True AuthenticationService)"
  have d: "disabled ?svc" and c: "context_msal ?svc = None" and p: "promises ?svc = []"
    using setState_frame [of "[(''authenticated'', SBool True), (''authenticating'', SBool False)]"
        "AuthenticationService \<lparr> disabled := True, context_msal := None \<rparr>"]
    by (simp_all add: init_def Let_def AuthenticationService_def)
  from d have s: "\<And>f. silent_then scopes f ?svc = (Inl (null_access ''then''), ?svc)"
    by (simp add: silent_then_def acquireTokenSilent_def)
  from d have k: "acquireTokenInCache ?svc w = (Inr None, w)"
    by (simp add: acquireTokenInCache_def)
  have e: "acquireToken_executor scopes forceTokenRefresh ?svc w = (Inl (null_access ''then''), ?svc, w)"
    by (simp add: acquireToken_executor_def k s token_usable_def)
  from d c p e show ?thesis
    by (simp add: isAuthenticated_def login_def acquireToken_def)
qed

section \<open>JSON text: properties\<close>

lemma digit_char_props:
  assumes "d < 10"
  shows "is_digit (digit_char d)" and "digit_val (digit_char d) = d"
    and "(digit_char d = CHR ''0'') = (d = 0)"
proof -
  from assms have "d = 0 \<or> d = 1 \<or> d = 2 \<or> d = 3 \<or> d = 4 \<or> d = 5 \<or> d = 6 \<or> d = 7 \<or> d = 8 \<or> d = 9"
    by arith
  then show "is_digit (digit_char d)" and "digit_val (digit_char d) = d"
    and "(digit_char d = CHR ''0'') = (d = 0)"
    by (elim disjE; simp add: digit_char_def is_digit_def digit_val_def)+
qed

lemma hex_char_val:
  assumes "d < 16"
  shows "hex_val (hex_char d) = Some d"
proof -
  from assms have "d = 0 \<or> d = 1 \<or> d = 2 \<or> d = 3 \<or> d = 4 \<or> d = 5 \<or> d = 6 \<or> d = 7 \<or> d = 8
      \<or> d = 9 \<or> d = 10 \<or> d = 11 \<or> d = 12 \<or> d = 13 \<or> d = 14 \<or> d = 15"
    by arith
  then show ?thesis
    by (elim disjE; simp add: hex_char_def hex_val_def is_digit_def digit_val_def)
qed

lemma digits_val_snoc: "digits_val (ds @ [c]) = 10 * digits_val ds + digit_val c"
  by (simp add: digits_val_def)

lemma digits_of_props:
  "list_all is_digit (digits_of n) \<and> digits_of n \<noteq> [] \<and> digits_val (digits_of n) = n
   \<and> ((hd (digits_of n) = CHR ''0'') = (n = 0)) \<and> (n = 0 \<longrightarrow> digits_of n = ''0'')"
proof (induction n rule: digits_of.induct)
  case (1 n)
  show ?case
  proof (cases "n < 10")
    case True
    then show ?thesis
      using digit_char_props [of n]
      by (subst (1 2 3 4 5) digits_of.simps) (auto simp: digits_val_def digit_char_def)
  next
    case False
    with 1 have ih: "list_all is_digit (digits_of (n div 10))" "digits_of (n div 10) \<noteq> []"
      "digits_val (digits_of (n div 10)) = n div 10"
      "(hd (digits_of (n div 10)) = CHR ''0'') = (n div 10 = 0)"
      by simp_all
    have m: "n mod 10 < 10" by simp
    from False have nz: "n div 10 \<noteq> 0" by simp
    have eq: "digits_of n = digits_of (n div 10) @ [digit_char (n mod 10)]"
      using False by (subst digits_of.simps) simp
    show ?thesis
      unfolding eq using ih nz False digit_char_props [OF m]
      by (simp add: digits_val_snoc)
  qed
qed

lemma pstring_esc:
  "pstring (esc c @ cs) = map_option (\<lambda>(s, x, t). (c # s, x, t)) (pstring cs)"
proof -
  consider (special) "c = dquote \<or> c = bslash \<or> c = CHR 0x08 \<or> c = CHR 0x0C \<or> c = CHR 0x0A
                      \<or> c = CHR 0x0D \<or> c = CHR 0x09"
    | (control) "c \<noteq> dquote" "c \<noteq> bslash" "c \<noteq> CHR 0x08" "c \<noteq> CHR 0x0C" "c \<noteq> CHR 0x0A"
                "c \<noteq> CHR 0x0D" "c \<noteq> CHR 0x09" "of_char c < (32::nat)"
    | (plain) "c \<noteq> dquote" "c \<noteq> bslash" "c \<noteq> CHR 0x08" "c \<noteq> CHR 0x0C" "c \<noteq> CHR 0x0A"
                "c \<noteq> CHR 0x0D" "c \<noteq> CHR 0x09" "\<not> of_char c < (32::nat)"
    by blast
  then show ?thesis
  proof cases
    case special
    then show ?thesis
      by (elim disjE; simp add: esc_def unescape_def)
  next
    case control
    let ?n = "of_char c :: nat"
    from control(8) have lt: "?n div 16 < 16" "?n mod 16 < 16" by arith+
    have z: "hex_val (CHR ''0'') = Some 0"
      by (simp add: hex_val_def is_digit_def digit_val_def)
    from control have e: "esc c = [bslash, CHR ''u'', CHR ''0'', CHR ''0'', hex_char (?n div 16), hex_char (?n mod 16)]"
      by (simp add: esc_def)
    have v: "16 * (?n div 16) + ?n mod 16 = ?n" by simp
    from control(8) have small: "?n < 256" by simp
    show ?thesis
      unfolding e using z hex_char_val [OF lt(1)] hex_char_val [OF lt(2)] small
      by (simp add: v)
  next
    case plain
    then have "esc c = [c]" by (simp add: esc_def)
    with plain show ?thesis by simp
  qed
qed

lemma pstring_quote:
  "pstring (concat (map esc s) @ dquote # rest) = Some (s, True, rest)"
  by (induction s) (simp_all add: pstring_esc)

lemma take_digits:
  "list_all is_digit ds \<Longrightarrow> rest = [] \<or> \<not> is_digit (hd rest) \<Longrightarrow>
   takeWhile is_digit (ds @ rest) = ds \<and> dropWhile is_digit (ds @ rest) = rest"
  by (induction ds) (auto simp: neq_Nil_conv takeWhile_eq_Nil_iff dropWhile_eq_self_iff)

lemma pnumber_digits:
  assumes "at_delimiter rest" and "n \<le> 2 ^ 53"
  shows "pnumber (digits_of n @ rest) = Got (JNum (int n)) True rest"
proof -
  note p = digits_of_props [of n]
  from assms(1) have d: "rest = [] \<or> \<not> is_digit (hd rest)"
    and f: "pfraction rest = Some (False, rest)" and x: "pexponent rest = Some (False, rest)"
    by (auto simp: at_delimiter_def is_digit_def pfraction_def pexponent_def)
  from p have "is_digit (hd (digits_of n))" by (cases "digits_of n") simp_all
  then have nm: "hd (digits_of n @ rest) \<noteq> CHR ''-''"
    using p by (auto simp: is_digit_def)
  from p d have t: "takeWhile is_digit (digits_of n @ rest) = digits_of n"
    "dropWhile is_digit (digits_of n @ rest) = rest"
    using take_digits by blast+
  have lead: "\<not> (length (digits_of n) > 1 \<and> hd (digits_of n) = CHR ''0'')"
    using p by auto
  show ?thesis
    using p nm t lead f x assms(2) by (simp add: pnumber_def Let_def)
qed

lemma pnumber_minus_digits:
  assumes "at_delimiter rest" and "n \<le> 2 ^ 53" and "n \<noteq> 0"
  shows "pnumber (CHR ''-'' # digits_of n @ rest) = Got (JNum (- int n)) True rest"
proof -
  note p = digits_of_props [of n]
  from assms(1) have d: "rest = [] \<or> \<not> is_digit (hd rest)"
    and f: "pfraction rest = Some (False, rest)" and x: "pexponent rest = Some (False, rest)"
    by (auto simp: at_delimiter_def is_digit_def pfraction_def pexponent_def)
  from p d have t: "takeWhile is_digit (digits_of n @ rest) = digits_of n"
    "dropWhile is_digit (digits_of n @ rest) = rest"
    using take_digits by blast+
  have lead: "\<not> (length (digits_of n) > 1 \<and> hd (digits_of n) = CHR ''0'')"
    using p by auto
  show ?thesis
    using p t lead f x assms(2,3) by (simp add: pnumber_def Let_def)
qed

lemma pnumber_roundtrip:
  assumes "at_delimiter rest" and "\<bar>i\<bar> \<le> 2 ^ 53"
  shows "pnumber (Number_toString i @ rest) = Got (JNum i) True rest"
proof (cases "i < 0")
  case True
  with assms(2) have "nat (- i) \<le> 2 ^ 53" "nat (- i) \<noteq> 0" by simp_all
  from pnumber_minus_digits [OF assms(1) this] True show ?thesis
    by (simp add: Number_toString_def)
next
  case False
  with assms(2) have "nat i \<le> 2 ^ 53" by simp
  from pnumber_digits [OF assms(1) this] False show ?thesis
    by (simp add: Number_toString_def)
qed

lemma Number_toString_head:
  "\<exists>c r. Number_toString i = c # r \<and> (c = CHR ''-'' \<or> is_digit c)"
proof (cases "i < 0")
  case True
  then show ?thesis by (simp add: Number_toString_def)
next
  case False
  note p = digits_of_props [of "nat i"]
  then obtain c r where "digits_of (nat i) = c # r" by (cases "digits_of (nat i)") auto
  with p False show ?thesis by (simp add: Number_toString_def)
qed

lemma set_prop_new: "k \<notin> set (map fst ps) \<Longrightarrow> set_prop k v ps = ps @ [(k, v)]"
  by (induction ps) auto

lemma insert_index_last:
  "list_all (\<lambda>k'. case index_of k' of Some m \<Rightarrow> m < n | None \<Rightarrow> False) (map fst ps) \<Longrightarrow>
   insert_index n k v ps = ps @ [(k, v)]"
  by (induction ps) (auto split: option.splits)

lemma define_prop_ordered:
  "js_ordered (map fst acc) (k # ks) \<Longrightarrow> define_prop k v acc = acc @ [(k, v)]"
  by (auto simp: define_prop_def set_prop_new insert_index_last split: option.splits)

lemma ser_some: "json_value v \<Longrightarrow> \<exists>s. ser v = Some s"
  by (cases v) simp_all

lemma ser_elems_json: "json_values vs \<Longrightarrow> ser_elems vs = map (\<lambda>x. the (ser x)) vs"
  by (induction vs) (auto dest: ser_some)

lemma ser_props_json:
  "json_props ps \<Longrightarrow> ser_props ps = map (\<lambda>(k, v). QuoteJSONString k @ CHR '':'' # the (ser v)) ps"
proof (induction ps)
  case Nil
  then show ?case by simp
next
  case (Cons p ps)
  obtain k v where p: "p = (k, v)" by (cases p)
  with Cons.prems obtain s where "ser v = Some s" by (auto dest: ser_some)
  with Cons p show ?case by simp
qed

lemma json_values_all: "json_values vs = (\<forall>x \<in> set vs. json_value x)"
  by (induction vs) auto

lemma json_props_all: "json_props ps = (\<forall>(k, v) \<in> set ps. json_value v)"
  by (induction ps) auto

lemma commas_cons: "commas (s # ss) = s @ concat (map (\<lambda>t. CHR '','' # t) ss)"
  by (induction ss arbitrary: s) simp_all

lemma skip_ws_keep: "\<not> is_ws c \<Longrightarrow> skip_ws (c # r) = c # r"
  by (simp add: skip_ws_def)

lemma value_start:
  assumes "json_value v"
  shows "\<exists>c r. the (ser v) = c # r \<and> \<not> is_ws c \<and> c \<noteq> CHR '']'' \<and> c \<noteq> CHR ''}''"
proof (cases v)
  case (JNum i)
  from Number_toString_head [of i] obtain c r
    where "Number_toString i = c # r" "c = CHR ''-'' \<or> is_digit c" by blast
  with JNum show ?thesis by (auto simp: is_ws_def is_digit_def)
qed (use assms in \<open>auto simp: is_ws_def QuoteJSONString_def\<close>)

lemma pjson_elems:
  assumes "\<And>x n rest. x \<in> set vs \<Longrightarrow> at_delimiter rest \<Longrightarrow> length (the (ser x)) < n \<Longrightarrow>
             pjson n PValue (the (ser x) @ rest) = Got x True rest"
    and "length (concat (map (\<lambda>x. CHR '','' # the (ser x)) vs)) < n"
  shows "pjson n (PElems acc e) (concat (map (\<lambda>x. CHR '','' # the (ser x)) vs) @ CHR '']'' # rest)
         = Got (JArr (acc @ vs)) e rest"
  using assms
proof (induction vs arbitrary: n acc)
  case Nil
  then obtain m where n: "n = Suc m" by (cases n) auto
  show ?case unfolding n by (simp add: skip_ws_keep is_ws_def)
next
  case (Cons v vs)
  let ?tail = "concat (map (\<lambda>x. CHR '','' # the (ser x)) vs) @ CHR '']'' # rest"
  from Cons.prems(2) obtain m where n: "n = Suc m" by (cases n) auto
  with Cons.prems(2) have lv: "length (the (ser v)) < m"
    and lt: "length (concat (map (\<lambda>x. CHR '','' # the (ser x)) vs)) < m"
    by simp_all
  have d: "at_delimiter ?tail"
    by (cases vs) (simp_all add: at_delimiter_def)
  have v: "pjson m PValue (the (ser v) @ ?tail) = Got v True ?tail"
    using Cons.prems(1) [OF _ d lv] by simp
  have sub: "\<And>x n rest. x \<in> set vs \<Longrightarrow> at_delimiter rest \<Longrightarrow> length (the (ser x)) < n \<Longrightarrow>
             pjson n PValue (the (ser x) @ rest) = Got x True rest"
    by (rule Cons.prems(1)) simp_all
  have rest: "pjson m (PElems (acc @ [v]) e) ?tail = Got (JArr ((acc @ [v]) @ vs)) e rest"
    by (rule Cons.IH [OF sub lt])
  show ?case
    unfolding n using v rest by (simp add: skip_ws_keep is_ws_def)
qed

lemma pjson_member:
  assumes "at_delimiter tail \<Longrightarrow> length (the (ser v)) < m \<Longrightarrow>
             pjson m PValue (the (ser v) @ tail) = Got v True tail"
    and "at_delimiter tail"
    and "length (QuoteJSONString k @ CHR '':'' # the (ser v)) < Suc m"
  shows "pjson (Suc m) (PMember acc e) ((QuoteJSONString k @ CHR '':'' # the (ser v)) @ tail)
         = pjson m (PMembers (define_prop k v acc) e) tail"
proof -
  from assms(3) have lv: "length (the (ser v)) < m" by (simp add: QuoteJSONString_def)
  have key: "pstring (concat (map esc k) @ dquote # CHR '':'' # the (ser v) @ tail)
             = Some (k, True, CHR '':'' # the (ser v) @ tail)"
    by (rule pstring_quote)
  from assms(1) [OF assms(2) lv] key show ?thesis
    by (simp add: QuoteJSONString_def skip_ws_keep is_ws_def)
qed

lemma pjson_members:
  assumes "\<And>k v n rest. (k, v) \<in> set ps \<Longrightarrow> at_delimiter rest \<Longrightarrow> length (the (ser v)) < n \<Longrightarrow>
             pjson n PValue (the (ser v) @ rest) = Got v True rest"
    and "js_ordered (map fst acc) (map fst ps)"
    and "length (concat (map (\<lambda>(k, v). CHR '','' # QuoteJSONString k @ CHR '':'' # the (ser v)) ps)) < n"
  shows "pjson n (PMembers acc e)
           (concat (map (\<lambda>(k, v). CHR '','' # QuoteJSONString k @ CHR '':'' # the (ser v)) ps) @ CHR ''}'' # rest)
         = Got (JObj (acc @ ps)) e rest"
  using assms
proof (induction ps arbitrary: n acc)
  case Nil
  then obtain m where n: "n = Suc m" by (cases n) auto
  show ?case unfolding n by (simp add: skip_ws_keep is_ws_def)
next
  case (Cons p ps)
  obtain k v where p: "p = (k, v)" by (cases p)
  let ?member = "QuoteJSONString k @ CHR '':'' # the (ser v)"
  let ?tail = "concat (map (\<lambda>(k, v). CHR '','' # QuoteJSONString k @ CHR '':'' # the (ser v)) ps) @ CHR ''}'' # rest"
  from Cons.prems(3) p obtain m where n: "n = Suc (Suc m)"
    by (cases n; cases "n - 1") (auto simp: QuoteJSONString_def)
  with Cons.prems(3) p have lm: "length ?member < Suc m"
    and lt: "length (concat (map (\<lambda>(k, v). CHR '','' # QuoteJSONString k @ CHR '':'' # the (ser v)) ps)) < m"
    by (simp_all add: QuoteJSONString_def)
  have d: "at_delimiter ?tail"
    by (cases ps) (auto simp: at_delimiter_def)
  have mem: "pjson (Suc m) (PMember acc e) (?member @ ?tail) = pjson m (PMembers (define_prop k v acc) e) ?tail"
    using Cons.prems(1) [of k v] p by (intro pjson_member [OF _ d lm]) simp
  from Cons.prems(2) p have def: "define_prop k v acc = acc @ [(k, v)]"
    by (intro define_prop_ordered [where ks = "map fst ps"]) simp
  from Cons.prems(2) p have ord: "js_ordered (map fst (acc @ [(k, v)])) (map fst ps)" by simp
  have sub: "\<And>k v n rest. (k, v) \<in> set ps \<Longrightarrow> at_delimiter rest \<Longrightarrow> length (the (ser v)) < n \<Longrightarrow>
             pjson n PValue (the (ser v) @ rest) = Got v True rest"
  proof -
    fix k' v' n' r'
    assume a: "(k', v') \<in> set ps" "at_delimiter r'" "length (the (ser v')) < n'"
    from a(1) have "(k', v') \<in> set (p # ps)" by simp
    from Cons.prems(1) [OF this a(2) a(3)]
    show "pjson n' PValue (the (ser v') @ r') = Got v' True r'" .
  qed
  have rest: "pjson m (PMembers (acc @ [(k, v)]) e) ?tail = Got (JObj ((acc @ [(k, v)]) @ ps)) e rest"
    by (rule Cons.IH [OF sub ord lt])
  show ?case
    unfolding n p using mem rest def by (simp add: skip_ws_keep is_ws_def)
qed

lemma pjson_value:
  "json_value v \<Longrightarrow> at_delimiter rest \<Longrightarrow> length (the (ser v)) < n \<Longrightarrow>
   pjson n PValue (the (ser v) @ rest) = Got v True rest"
proof (induction v arbitrary: n rest)
  case JUndefined
  then show ?case by simp
next
  case JNull
  then obtain m where "n = Suc m" by (cases n) auto
  then show ?case by (simp add: skip_ws_keep is_ws_def is_digit_def pliteral_def)
next
  case (JBool b)
  then obtain m where "n = Suc m" by (cases n) auto
  then show ?case by (cases b) (simp_all add: skip_ws_keep is_ws_def is_digit_def pliteral_def)
next
  case (JNum i)
  then obtain m where n: "n = Suc m" by (cases n) auto
  from Number_toString_head [of i] obtain c r
    where h: "Number_toString i = c # r" "c = CHR ''-'' \<or> is_digit c" by blast
  from h(2) have c: "\<not> is_ws c" "c \<noteq> CHR ''[''" "c \<noteq> CHR ''{''" "c \<noteq> dquote"
    by (auto simp: is_ws_def is_digit_def)
  from JNum.prems have "pnumber (Number_toString i @ rest) = Got (JNum i) True rest"
    by (intro pnumber_roundtrip) simp_all
  with h c show ?case unfolding n by (simp add: skip_ws_keep)
next
  case (JStr s)
  then obtain m where "n = Suc m" by (cases n) auto
  then show ?case
    by (simp add: skip_ws_keep is_ws_def QuoteJSONString_def pstring_quote)
next
  case (JArr vs)
  from JArr.prems(3) obtain m where n: "n = Suc m" by (cases n) auto
  from JArr.prems(1) have all: "\<forall>x \<in> set vs. json_value x" by (simp add: json_values_all)
  show ?case
  proof (cases vs)
    case Nil
    then show ?thesis unfolding n by (simp add: skip_ws_keep is_ws_def)
  next
    case (Cons x xs)
    let ?tail = "concat (map (\<lambda>x. CHR '','' # the (ser x)) xs) @ CHR '']'' # rest"
    from JArr.prems(1) have se: "ser_elems vs = map (\<lambda>x. the (ser x)) vs"
      by (simp add: ser_elems_json)
    have shape: "the (ser (JArr vs)) = CHR ''['' # the (ser x) @ concat (map (\<lambda>x. CHR '','' # the (ser x)) xs) @ '']''"
    proof -
      have "the (ser (JArr vs)) = ''['' @ commas (map (\<lambda>x. the (ser x)) vs) @ '']''"
        using se by simp
      also have "commas (map (\<lambda>x. the (ser x)) vs)
                 = the (ser x) @ concat (map (\<lambda>t. CHR '','' # t) (map (\<lambda>x. the (ser x)) xs))"
        unfolding Cons list.map by (rule commas_cons)
      finally show ?thesis by (simp add: comp_def)
    qed
    from JArr.prems(3) have lx: "length (the (ser x)) < m"
      and lt: "length (concat (map (\<lambda>x. CHR '','' # the (ser x)) xs)) < m"
      unfolding shape n by simp_all
    from all Cons have jx: "json_value x" by simp
    from value_start [OF jx] obtain c r
      where st: "the (ser x) = c # r" "\<not> is_ws c" "c \<noteq> CHR '']''" by blast
    have d: "at_delimiter ?tail" by (cases xs) (simp_all add: at_delimiter_def)
    have first: "pjson m PValue (the (ser x) @ ?tail) = Got x True ?tail"
      using JArr.IH [OF _ jx d lx] Cons by simp
    have others: "pjson m (PElems [x] True) ?tail = Got (JArr ([x] @ xs)) True rest"
    proof (rule pjson_elems [OF _ lt])
      fix y k rest'
      assume "y \<in> set xs" "at_delimiter rest'" "length (the (ser y)) < k"
      with JArr.IH [of y rest' k] all Cons
      show "pjson k PValue (the (ser y) @ rest') = Got y True rest'" by simp
    qed
    have open_bracket: "pjson (Suc m) PValue (CHR ''['' # the (ser x) @ ?tail)
        = (case pjson m PValue (the (ser x) @ ?tail) of
             Got v e r1 \<Rightarrow> pjson m (PElems [v] e) r1 | Bad \<Rightarrow> Bad | Starved \<Rightarrow> Starved)"
      using st by (simp add: skip_ws_keep is_ws_def)
    show ?thesis
      unfolding shape n using open_bracket first others Cons by simp
  qed
next
  case (JObj ps)
  from JObj.prems(3) obtain m where n: "n = Suc m" by (cases n) auto
  from JObj.prems(1) have props: "json_props ps" and ord: "js_ordered [] (map fst ps)" by simp_all
  from props have all: "\<forall>(k, v) \<in> set ps. json_value v" by (simp add: json_props_all)
  show ?case
  proof (cases ps)
    case Nil
    then show ?thesis unfolding n by (simp add: skip_ws_keep is_ws_def)
  next
    case (Cons p qs)
    obtain k v where p: "p = (k, v)" by (cases p)
    let ?member = "QuoteJSONString k @ CHR '':'' # the (ser v)"
    let ?tail = "concat (map (\<lambda>(k, v). CHR '','' # QuoteJSONString k @ CHR '':'' # the (ser v)) qs) @ CHR ''}'' # rest"
    from props have sp: "ser_props ps = map (\<lambda>(k, v). QuoteJSONString k @ CHR '':'' # the (ser v)) ps"
      by (rule ser_props_json)
    have shape: "the (ser (JObj ps)) = CHR ''{'' # ?member
        @ concat (map (\<lambda>(k, v). CHR '','' # QuoteJSONString k @ CHR '':'' # the (ser v)) qs) @ ''}''"
    proof -
      have "the (ser (JObj ps))
            = ''{'' @ commas (map (\<lambda>(k, v). QuoteJSONString k @ CHR '':'' # the (ser v)) ps) @ ''}''"
        using sp by simp
      also have "commas (map (\<lambda>(k, v). QuoteJSONString k @ CHR '':'' # the (ser v)) ps)
                 = ?member @ concat (map (\<lambda>t. CHR '','' # t)
                     (map (\<lambda>(k, v). QuoteJSONString k @ CHR '':'' # the (ser v)) qs))"
        unfolding Cons p list.map prod.case by (rule commas_cons)
      finally show ?thesis by (simp add: comp_def case_prod_unfold)
    qed
    from JObj.prems(3) obtain m' where m: "m = Suc m'"
      unfolding shape n by (cases m) (auto simp: QuoteJSONString_def)
    from JObj.prems(3) have lm: "length ?member < Suc m'"
      and lt: "length (concat (map (\<lambda>(k, v). CHR '','' # QuoteJSONString k @ CHR '':'' # the (ser v)) qs)) < m'"
      unfolding shape n m by (simp_all add: QuoteJSONString_def)
    from all Cons p have jv: "json_value v" by simp
    have d: "at_delimiter ?tail" by (cases qs) (auto simp: at_delimiter_def)
    have vin: "v \<in> Basic_BNFs.snds p" "p \<in> set ps" using p Cons by simp_all
    have mem: "pjson (Suc m') (PMember [] True) (?member @ ?tail)
               = pjson m' (PMembers (define_prop k v []) True) ?tail"
      using JObj.IH [OF vin(2) vin(1) jv] by (intro pjson_member [OF _ d lm]) simp
    have def: "define_prop k v [] = [(k, v)]"
      by (simp add: define_prop_def split: option.splits)
    from ord Cons p have ord': "js_ordered (map fst [(k, v)]) (map fst qs)" by simp
    have others: "pjson m' (PMembers [(k, v)] True) ?tail = Got (JObj ([(k, v)] @ qs)) True rest"
    proof (rule pjson_members [OF _ ord' lt])
      fix k' v' j rest'
      assume a: "(k', v') \<in> set qs" "at_delimiter rest'" "length (the (ser v')) < j"
      then have "(k', v') \<in> set ps" "v' \<in> Basic_BNFs.snds (k', v')" using Cons by simp_all
      from JObj.IH [OF this _ a(2) a(3)] all a(1) Cons
      show "pjson j PValue (the (ser v') @ rest') = Got v' True rest'" by auto
    qed
    have open_brace: "pjson (Suc m) PValue (CHR ''{'' # ?member @ ?tail)
        = pjson m (PMember [] True) (?member @ ?tail)"
      by (simp add: skip_ws_keep is_ws_def QuoteJSONString_def)
    show ?thesis
      unfolding shape n using open_brace mem others def Cons p unfolding m by simp
  qed
next
  case (JDate t)
  then show ?case by simp
next
  case (JBigInt i)
  then show ?case by simp
qed

lemma JSON_parse_ser:
  assumes "json_value v"
  shows "JSON_parse (the (ser v)) = Inr v"
proof -
  have "at_delimiter []" by (simp add: at_delimiter_def)
  from pjson_value [OF assms this, of "Suc (length (the (ser v)))"]
  show ?thesis by (simp add: JSON_parse_def skip_ws_def)
qed

text \<open>
  The bound of \<open>pjson\<close> never runs out when it exceeds the length of the text:
  every call consumes a character before the next one is made.
\<close>

lemma skip_ws_length: "length (skip_ws cs) \<le> length cs"
  by (simp add: skip_ws_def length_dropWhile_le)

lemma skip_ws_Cons_length: "skip_ws cs = c # r \<Longrightarrow> length r < length cs"
  using skip_ws_length [of cs] by simp

lemma pstring_shorter: "pstring cs = Some (s, e, r) \<Longrightarrow> length r < length cs"
proof (induction "length cs" arbitrary: cs s e r rule: less_induct)
  case less
  have ih: "\<And>cs' s' e' r'. pstring cs' = Some (s', e', r') \<Longrightarrow> length cs' < length cs \<Longrightarrow>
              length r' < length cs'"
    using less.hyps by blast
  show ?case
  proof (cases cs)
    case Nil
    with less.prems show ?thesis by simp
  next
    case (Cons c cs')
    with less.prems show ?thesis
      by (auto split: if_splits list.splits option.splits prod.splits dest!: ih)
  qed
qed

lemma pfraction_length: "pfraction r = Some (b, r') \<Longrightarrow> length r' \<le> length r"
  by (cases r) (auto simp: pfraction_def split: if_splits
        intro: order_trans [OF length_dropWhile_le])

lemma pexponent_length: "pexponent r = Some (b, r') \<Longrightarrow> length r' \<le> length r"
proof (cases r)
  case Nil
  assume "pexponent r = Some (b, r')"
  with Nil show ?thesis by (simp add: pexponent_def)
next
  case (Cons c cs)
  assume p: "pexponent r = Some (b, r')"
  have a: "length (dropWhile is_digit cs) \<le> Suc (length cs)"
    using length_dropWhile_le [of is_digit cs] by simp
  have b: "length (dropWhile is_digit (tl cs)) \<le> Suc (length cs)"
    using length_dropWhile_le [of is_digit "tl cs"] by simp
  from p Cons a b show ?thesis
    by (auto simp: pexponent_def Let_def split: if_splits)
qed

lemma pnumber_shorter:
  assumes "pnumber cs = Got v e r"
  shows "length r < length cs"
proof -
  define cs1 where "cs1 = (if cs \<noteq> [] \<and> hd cs = CHR ''-'' then tl cs else cs)"
  from assms have ds: "takeWhile is_digit cs1 \<noteq> []"
    by (auto simp: pnumber_def Let_def cs1_def split: if_splits)
  obtain p where p: "pfraction (dropWhile is_digit cs1) = Some p"
    using assms ds
    by (cases "pfraction (dropWhile is_digit cs1)")
       (simp_all add: pnumber_def Let_def cs1_def split: if_splits)
  obtain fr r2 where f: "pfraction (dropWhile is_digit cs1) = Some (fr, r2)"
    using p by (cases p) simp
  obtain q where q: "pexponent r2 = Some q"
    using assms ds f
    by (cases "pexponent r2")
       (simp_all add: pnumber_def Let_def cs1_def split: if_splits)
  obtain ex r3 where x: "pexponent r2 = Some (ex, r3)"
    using q by (cases q) simp
  have "r3 = r"
    using assms ds f x
    by (simp add: pnumber_def Let_def cs1_def split: if_splits)
  note x = x [unfolded this]
  have "length (takeWhile is_digit cs1) + length (dropWhile is_digit cs1) = length cs1"
    by (metis length_append takeWhile_dropWhile_id)
  with ds have "length (dropWhile is_digit cs1) < length cs1"
    by (cases "takeWhile is_digit cs1") simp_all
  moreover have "length cs1 \<le> length cs"
    by (simp add: cs1_def)
  ultimately show ?thesis
    using pfraction_length [OF f] pexponent_length [OF x] by simp
qed

lemma pliteral_shorter: "pliteral cs = Got v e r \<Longrightarrow> length r < length cs"
  by (cases cs) (auto simp: pliteral_def split: if_splits)

lemma pjson_shorter: "pjson n md cs = Got v e r \<Longrightarrow> length r < length cs"
proof (induction n arbitrary: md cs v e r)
  case 0
  then show ?case by simp
next
  case (Suc n)
  obtain c r0 where s: "skip_ws cs = c # r0"
    using Suc.prems by (cases "skip_ws cs") simp_all
  have l0: "length r0 < length cs"
    using s by (rule skip_ws_Cons_length)
  note ih = Suc.IH
  show ?case
  proof (cases md)
    case PValue
    consider (arr) "c = CHR ''[''" | (obj) "c \<noteq> CHR ''[''" "c = CHR ''{''"
      | (str) "c \<noteq> CHR ''[''" "c \<noteq> CHR ''{''" "c = dquote"
      | (num) "c \<noteq> CHR ''[''" "c \<noteq> CHR ''{''" "c \<noteq> dquote" "c = CHR ''-'' \<or> is_digit c"
      | (lit) "c \<noteq> CHR ''[''" "c \<noteq> CHR ''{''" "c \<noteq> dquote" "\<not> (c = CHR ''-'' \<or> is_digit c)"
      by blast
    then show ?thesis
    proof cases
      case arr
      obtain c' r' where s': "skip_ws r0 = c' # r'"
        using Suc.prems s PValue arr by (cases "skip_ws r0") simp_all
      have l': "length r' < length r0"
        using s' by (rule skip_ws_Cons_length)
      show ?thesis
      proof (cases "c' = CHR '']''")
        case True
        with Suc.prems s PValue arr s' l' l0 show ?thesis by simp
      next
        case False
        with Suc.prems s PValue arr s' obtain v1 e1 r1 where
          a: "pjson n PValue r0 = Got v1 e1 r1" and b: "pjson n (PElems [v1] e1) r1 = Got v e r"
          by (cases "pjson n PValue r0") simp_all
        from ih [OF a] ih [OF b] l0 show ?thesis by simp
      qed
    next
      case obj
      obtain c' r' where s': "skip_ws r0 = c' # r'"
        using Suc.prems s PValue obj by (cases "skip_ws r0") simp_all
      have l': "length r' < length r0"
        using s' by (rule skip_ws_Cons_length)
      show ?thesis
      proof (cases "c' = CHR ''}''")
        case True
        with Suc.prems s PValue obj s' l' l0 show ?thesis by simp
      next
        case False
        with Suc.prems s PValue obj s' have "pjson n (PMember [] True) r0 = Got v e r"
          by simp
        from ih [OF this] l0 show ?thesis by simp
      qed
    next
      case str
      with Suc.prems s PValue obtain s1 where "pstring r0 = Some (s1, e, r)"
        by (cases "pstring r0") auto
      from pstring_shorter [OF this] l0 show ?thesis by simp
    next
      case num
      with Suc.prems s PValue have "pnumber (c # r0) = Got v e r"
        by auto
      from pnumber_shorter [OF this] l0 show ?thesis by simp
    next
      case lit
      with Suc.prems s PValue have "pliteral (c # r0) = Got v e r"
        by auto
      from pliteral_shorter [OF this] l0 show ?thesis by simp
    qed
  next
    case (PElems acc e0)
    show ?thesis
    proof (cases "c = CHR '',''")
      case True
      with Suc.prems s PElems obtain v1 e1 r1 where
        a: "pjson n PValue r0 = Got v1 e1 r1"
        and b: "pjson n (PElems (acc @ [v1]) (e0 \<and> e1)) r1 = Got v e r"
        by (cases "pjson n PValue r0") simp_all
      from ih [OF a] ih [OF b] l0 show ?thesis by simp
    next
      case False
      with Suc.prems s PElems l0 show ?thesis
        by (simp split: if_splits)
    qed
  next
    case (PMember acc e0)
    from Suc.prems s PMember have q: "c = dquote"
      by (simp split: if_splits)
    with Suc.prems s PMember obtain p where "pstring r0 = Some p"
      by (cases "pstring r0") simp_all
    then obtain k e1 r1 where k: "pstring r0 = Some (k, e1, r1)"
      by (cases p) simp
    have l1: "length r1 < length r0"
      using k by (rule pstring_shorter)
    obtain c' r2 where s': "skip_ws r1 = c' # r2"
      using Suc.prems s PMember q k by (cases "skip_ws r1") simp_all
    have l2: "length r2 < length r1"
      using s' by (rule skip_ws_Cons_length)
    from Suc.prems s PMember q k s' have col: "c' = CHR '':''"
      by (simp split: if_splits)
    with Suc.prems s PMember q k s' obtain v1 e2 r3 where
      a: "pjson n PValue r2 = Got v1 e2 r3"
      and b: "pjson n (PMembers (define_prop k v1 acc) (e0 \<and> e1 \<and> e2)) r3 = Got v e r"
      by (cases "pjson n PValue r2") simp_all
    from ih [OF a] ih [OF b] l0 l1 l2 show ?thesis by simp
  next
    case (PMembers acc e0)
    show ?thesis
    proof (cases "c = CHR '',''")
      case True
      with Suc.prems s PMembers have "pjson n (PMember acc e0) r0 = Got v e r"
        by simp
      from ih [OF this] l0 show ?thesis by simp
    next
      case False
      with Suc.prems s PMembers l0 show ?thesis
        by (simp split: if_splits)
    qed
  qed
qed

lemma pnumber_not_starved: "pnumber cs \<noteq> Starved"
  by (simp add: pnumber_def Let_def split: option.splits prod.splits)

lemma pliteral_not_starved: "pliteral cs \<noteq> Starved"
  by (simp add: pliteral_def)

lemma pjson_not_starved: "length cs < n \<Longrightarrow> pjson n md cs \<noteq> Starved"
proof (induction n arbitrary: md cs)
  case 0
  then show ?case by simp
next
  case (Suc n)
  show ?case
  proof (cases "skip_ws cs")
    case Nil
    then show ?thesis by simp
  next
    case (Cons c r0)
    have l0: "length r0 < n"
      using skip_ws_Cons_length [OF Cons] Suc.prems by simp
    have ih: "pjson n md' cs' \<noteq> Starved" if "length cs' \<le> length r0" for md' cs'
      using Suc.IH [of cs' md'] that l0 by simp
    have after: "pjson n md' r1 \<noteq> Starved"
      if "pjson n md0 cs' = Got v e r1" "length cs' \<le> length r0" for md0 md' cs' v e r1
      using pjson_shorter [OF that(1)] that(2) by (intro ih) simp
    show ?thesis
    proof (cases md)
      case PValue
      have "pjson n PValue r0 \<noteq> Starved" "pjson n (PMember [] True) r0 \<noteq> Starved"
        by (simp_all add: ih)
      moreover have "pjson n (PElems [v1] e1) r1 \<noteq> Starved"
        if "pjson n PValue r0 = Got v1 e1 r1" for v1 e1 r1
        using that by (rule after) simp
      ultimately show ?thesis
        using Cons PValue
        by (simp add: pnumber_not_starved pliteral_not_starved
              split: list.splits got.splits option.splits prod.splits)
    next
      case (PElems acc e0)
      have "pjson n PValue r0 \<noteq> Starved"
        by (simp add: ih)
      moreover have "pjson n (PElems (acc @ [v1]) (e0 \<and> e1)) r1 \<noteq> Starved"
        if "pjson n PValue r0 = Got v1 e1 r1" for v1 e1 r1
        using that by (rule after) simp
      ultimately show ?thesis
        using Cons PElems by (simp split: got.splits)
    next
      case (PMember acc e0)
      have m: "pjson n PValue r2 \<noteq> Starved
            \<and> (\<forall>v1 e2 r3. pjson n PValue r2 = Got v1 e2 r3 \<longrightarrow>
                  pjson n (PMembers (define_prop k v1 acc) (e0 \<and> e1 \<and> e2)) r3 \<noteq> Starved)"
        if k: "pstring r0 = Some (k, e1, r1)" and s': "skip_ws r1 = c' # r2" for k e1 r1 c' r2
      proof -
        have le: "length r2 \<le> length r0"
          using pstring_shorter [OF k] skip_ws_Cons_length [OF s'] by simp
        have "pjson n PValue r2 \<noteq> Starved"
          using le by (rule ih)
        moreover have "pjson n (PMembers (define_prop k v1 acc) (e0 \<and> e1 \<and> e2)) r3 \<noteq> Starved"
          if "pjson n PValue r2 = Got v1 e2 r3" for v1 e2 r3
          using that le by (rule after)
        ultimately show ?thesis
          by blast
      qed
      show ?thesis
      proof (cases "pstring r0")
        case None
        with Cons PMember show ?thesis by simp
      next
        case (Some p)
        then obtain k e1 r1 where k: "pstring r0 = Some (k, e1, r1)"
          by (cases p) simp
        show ?thesis
        proof (cases "skip_ws r1")
          case Nil
          with Cons PMember k show ?thesis by simp
        next
          case (Cons c' r2)
          note s' = this
          from m [OF k s'] \<open>skip_ws cs = c # r0\<close> PMember k s' show ?thesis
            by (simp split: got.splits)
        qed
      qed
    next
      case (PMembers acc e0)
      have "pjson n (PMember acc e0) r0 \<noteq> Starved"
        by (simp add: ih)
      then show ?thesis
        using Cons PMembers by simp
    qed
  qed
qed

lemma JSON_parse_bound_suffices: "pjson (Suc (length text)) PValue text \<noteq> Starved"
  by (rule pjson_not_starved) simp

section \<open>Persistent cache: properties\<close>

text \<open>The equations that evaluate a date to its text and a text to its date.\<close>

lemmas iso_eval = toISOString_def civil_from_days_def civil_in_era_def civil_of_def year_of_era_def
  day_of_year_def iso_date_def iso_time_def iso_year_def pad_def digits_of.simps digit_char_def


lemma map_of_set_prop: "map_of (set_prop k v ps) k = Some v"
  by (induction ps) auto

lemma getItem_setItem: "setItem key t s = Inr s' \<Longrightarrow> getItem key s' = Some t"
  by (auto simp: setItem_def getItem_def map_of_set_prop split: if_splits)

lemma window_get_put: "window_get ty (window_put ty s w) = s"
  by (cases ty) simp_all

lemma window_get_put_other: "ty' \<noteq> ty \<Longrightarrow> window_get ty' (window_put ty s w) = window_get ty' w"
  by (cases ty; cases ty') simp_all

lemma have_bigint_ex: "have_bigint vs = (\<exists>x \<in> set vs. has_bigint x)"
  by (induction vs) auto

lemma props_have_bigint_ex: "props_have_bigint ps = (\<exists>(k, v) \<in> set ps. has_bigint v)"
  by (induction ps) auto

lemma json_value_no_bigint: "json_value v \<Longrightarrow> \<not> has_bigint v"
proof (induction v)
  case (JArr vs)
  then show ?case by (auto simp: have_bigint_ex json_values_all)
next
  case (JObj ps)
  then show ?case by (fastforce simp: props_have_bigint_ex json_props_all)
qed simp_all

lemma parsed_back_json: "json_value v \<Longrightarrow> parsed_back v = v"
  by (cases v) simp_all

text \<open>
  The entry \<open>{ expiration, data }\<close>: its text, and what reading gives after
  writing it into a storage that accepts the text.
\<close>

lemma entry_text:
  assumes "json_value D" and "json_value E \<or> (\<exists>t. E = JDate t)"
  shows "write_text (JObj [(''expiration'', E), (''data'', D)])
           = Inr (the (ser (JObj [(''expiration'', parsed_back E), (''data'', D)])))"
    and "json_value (JObj [(''expiration'', parsed_back E), (''data'', D)])"
    and "\<exists>r. the (ser (JObj [(''expiration'', parsed_back E), (''data'', D)])) = CHR ''{'' # dquote # r"
proof -
  from assms(2) have e: "json_value (parsed_back E)" "ser (parsed_back E) = ser E" "\<not> has_bigint E"
    by (auto simp: json_value_no_bigint parsed_back_json)
  from e(1) obtain se where se: "ser (parsed_back E) = Some se" by (auto dest: ser_some)
  from assms(1) obtain sd where sd: "ser D = Some sd" by (auto dest: ser_some)
  have i: "index_of ''expiration'' = None" "index_of ''data'' = None"
    by (simp_all add: index_of_def is_digit_def)
  from assms(1) e(1) i show "json_value (JObj [(''expiration'', parsed_back E), (''data'', D)])"
    by simp
  from se sd e(2) have "ser (JObj [(''expiration'', E), (''data'', D)])
      = ser (JObj [(''expiration'', parsed_back E), (''data'', D)])"
    by simp
  with assms(1) e(3) se sd
  show "write_text (JObj [(''expiration'', E), (''data'', D)])
           = Inr (the (ser (JObj [(''expiration'', parsed_back E), (''data'', D)])))"
    by (simp add: write_text_def JSON_stringify_def json_value_no_bigint)
  from se sd show "\<exists>r. the (ser (JObj [(''expiration'', parsed_back E), (''data'', D)])) = CHR ''{'' # dquote # r"
    by (simp add: QuoteJSONString_def)
qed

lemma entry_read_back:
  assumes "json_value D" and "json_value E \<or> (\<exists>t. E = JDate t)"
    and "write_text (JObj [(''expiration'', E), (''data'', D)]) = Inr t"
    and "accepts K t (window_get ty w)"
  shows "read K ty (write_cache K (JObj [(''expiration'', E), (''data'', D)]) ty w)
         = Inr (JObj [(''expiration'', parsed_back E), (''data'', D)])"
proof -
  let ?revived = "JObj [(''expiration'', parsed_back E), (''data'', D)]"
  note t = entry_text [OF assms(1,2)]
  from t(1) assms(3) have tt: "t = the (ser ?revived)" by simp
  from t(3) tt obtain r where shape: "t = CHR ''{'' # dquote # r" by blast
  from JSON_parse_ser [OF t(2)] tt have parse: "JSON_parse t = Inr ?revived" by simp
  from assms(4) obtain s' where set: "setItem K t (window_get ty w) = Inr s'"
    by (simp add: setItem_def)
  with assms(3) have w: "write_cache K (JObj [(''expiration'', E), (''data'', D)]) ty w = window_put ty s' w"
    by (simp add: write_cache_def)
  from getItem_setItem [OF set] have "getItem K (window_get ty (window_put ty s' w)) = Some t"
    by (simp add: window_get_put)
  with parse shape show ?thesis
    unfolding w by (simp add: read_def)
qed

text \<open>
  C10. When \<open>JSON.stringify\<close> raises, or \<open>setItem\<close> refuses the text, \<open>write\<close>
  leaves the storage of that type empty: no key has an item any more. The storage
  of the other type is untouched.
\<close>

theorem write_failure_clears_storage:
  assumes "write_text v = Inl e \<or> (write_text v = Inr t \<and> \<not> accepts key t (window_get ty w))"
  shows "window_get ty (write_cache key v ty w) = clear (window_get ty w)
         \<and> items (window_get ty (write_cache key v ty w)) = []
         \<and> (\<forall>k. getItem k (window_get ty (write_cache key v ty w)) = None)
         \<and> (\<forall>ty'. ty' \<noteq> ty \<longrightarrow> window_get ty' (write_cache key v ty w) = window_get ty' w)"
proof -
  from assms have "write_cache key v ty w = window_put ty (clear (window_get ty w)) w"
    by (auto simp: write_cache_def setItem_def)
  then show ?thesis
    by (simp add: window_get_put window_get_put_other clear_def getItem_def)
qed

theorem write_failure_clears_storage_witness:
  "write_cache ''msal.id-1.info'' (JObj [(''count'', JBigInt 1)]) LOCAL_STORAGE
     \<lparr> localStorage = \<lparr> items = [(''msal.id-2.info'', ''{}''), (''theme'', ''dark'')], quota = 100 \<rparr>,
       sessionStorage = \<lparr> items = [(''s'', ''t'')], quota = 100 \<rparr> \<rparr>
   = \<lparr> localStorage = \<lparr> items = [], quota = 100 \<rparr>,
       sessionStorage = \<lparr> items = [(''s'', ''t'')], quota = 100 \<rparr> \<rparr>
   \<and> window_get SESSION_STORAGE
       (write_cache ''k'' (JStr ''a text that does not fit'') SESSION_STORAGE
          \<lparr> localStorage = \<lparr> items = [(''a'', ''b'')], quota = 100 \<rparr>,
            sessionStorage = \<lparr> items = [(''s'', ''t''), (''u'', ''v'')], quota = 10 \<rparr> \<rparr>)
     = \<lparr> items = [], quota = 10 \<rparr>"
proof -
  let ?w = "\<lparr> localStorage = \<lparr> items = [(''msal.id-2.info'', ''{}''), (''theme'', ''dark'')], quota = 100 \<rparr>,
             sessionStorage = \<lparr> items = [(''s'', ''t'')], quota = 100 \<rparr> \<rparr>"
  let ?u = "\<lparr> localStorage = \<lparr> items = [(''a'', ''b'')], quota = 100 \<rparr>,
             sessionStorage = \<lparr> items = [(''s'', ''t''), (''u'', ''v'')], quota = 10 \<rparr> \<rparr>"
  let ?big = "JObj [(''count'', JBigInt 1)]"
  let ?long = "JStr ''a text that does not fit''"
  have a: "write_text ?big = Inl (TypeError ''Do not know how to serialize a BigInt'')"
    by (simp add: write_text_def JSON_stringify_def)
  have b: "write_text ?long = Inr (QuoteJSONString ''a text that does not fit'')"
    by (simp add: write_text_def JSON_stringify_def)
  have c: "\<not> accepts ''k'' (QuoteJSONString ''a text that does not fit'') (window_get SESSION_STORAGE ?u)"
    by (simp add: accepts_def used_def QuoteJSONString_def esc_def)
  from write_failure_clears_storage [of ?big "TypeError ''Do not know how to serialize a BigInt''"
      "[]" "''msal.id-1.info''" LOCAL_STORAGE ?w] a
  have th: "window_get LOCAL_STORAGE (write_cache ''msal.id-1.info'' ?big LOCAL_STORAGE ?w)
             = clear (window_get LOCAL_STORAGE ?w)
          \<and> (\<forall>ty'. ty' \<noteq> LOCAL_STORAGE \<longrightarrow>
                window_get ty' (write_cache ''msal.id-1.info'' ?big LOCAL_STORAGE ?w) = window_get ty' ?w)"
    by blast
  then have 1: "window_get LOCAL_STORAGE (write_cache ''msal.id-1.info'' ?big LOCAL_STORAGE ?w)
             = clear (window_get LOCAL_STORAGE ?w)"
    by blast
  have "SESSION_STORAGE \<noteq> LOCAL_STORAGE" by simp
  with th have 2: "window_get SESSION_STORAGE (write_cache ''msal.id-1.info'' ?big LOCAL_STORAGE ?w)
             = window_get SESSION_STORAGE ?w"
    by blast
  from write_failure_clears_storage [of ?long "QuotaExceededError"
      "QuoteJSONString ''a text that does not fit''" "''k''" SESSION_STORAGE ?u] b c
  have 3: "window_get SESSION_STORAGE (write_cache ''k'' ?long SESSION_STORAGE ?u)
             = clear (window_get SESSION_STORAGE ?u)"
    by blast
  from 1 2 have "write_cache ''msal.id-1.info'' ?big LOCAL_STORAGE ?w
      = \<lparr> localStorage = \<lparr> items = [], quota = 100 \<rparr>,
          sessionStorage = \<lparr> items = [(''s'', ''t'')], quota = 100 \<rparr> \<rparr>"
    by (cases "write_cache ''msal.id-1.info'' ?big LOCAL_STORAGE ?w") (simp add: clear_def)
  with 3 show ?thesis by (simp add: clear_def)
qed

text \<open>
  C4 as stated fails: a stored text that is not JSON makes \<open>read\<close> raise the
  \<open>SyntaxError\<close> of \<open>JSON.parse\<close>; it is not taken for a missing entry.
\<close>

theorem read_unparseable_counterexample:
  "read ''msal.id-1.info'' LOCAL_STORAGE
     \<lparr> localStorage = \<lparr> items = [(''msal.id-1.info'', ''{not json'')], quota = 100 \<rparr>,
       sessionStorage = \<lparr> items = [], quota = 100 \<rparr> \<rparr>
   = Inl (SyntaxError ''Unexpected token in JSON'')"
  by (simp add: read_def getItem_def JSON_parse_def skip_ws_def is_ws_def)

text \<open>
  C4, amended: for every JSON-representable \<open>D\<close>, every key and an expiration
  that is JSON-representable or a date, writing the entry and reading the key gives
  the entry back with \<open>data\<close> equal to \<open>D\<close> (a date comes back as its ISO
  text), provided the storage accepts the text; when it does not, the storage
  was cleared and reading gives \<open>null\<close>. A stored text outside the five
  that \<open>read\<close> lists, on which \<open>JSON.parse\<close> raises, makes \<open>read\<close> raise
  that error.
\<close>

theorem read_after_write_cache:
  "(json_value D \<and> (json_value E \<or> (\<exists>t. E = JDate t))
      \<and> write_text (JObj [(''expiration'', E), (''data'', D)]) = Inr body
      \<and> accepts K body (window_get ty w)
     \<longrightarrow> read K ty (write_cache K (JObj [(''expiration'', E), (''data'', D)]) ty w)
           = Inr (JObj [(''expiration'', parsed_back E), (''data'', D)])
         \<and> get_prop (JObj [(''expiration'', parsed_back E), (''data'', D)]) ''data'' = D)
   \<and> (write_text (JObj [(''expiration'', E), (''data'', D)]) = Inr body
      \<and> \<not> accepts K body (window_get ty w)
     \<longrightarrow> read K ty (write_cache K (JObj [(''expiration'', E), (''data'', D)]) ty w) = Inr JNull)
   \<and> (getItem K (window_get ty w) = Some stored
      \<and> stored \<notin> {[], ''null'', ''undefined'', ''{}'', ''[]''}
      \<and> JSON_parse stored = Inl e
     \<longrightarrow> read K ty w = Inl e)"
proof (intro conjI impI)
  assume a: "json_value D \<and> (json_value E \<or> (\<exists>t. E = JDate t))
      \<and> write_text (JObj [(''expiration'', E), (''data'', D)]) = Inr body
      \<and> accepts K body (window_get ty w)"
  then show "read K ty (write_cache K (JObj [(''expiration'', E), (''data'', D)]) ty w)
           = Inr (JObj [(''expiration'', parsed_back E), (''data'', D)])"
    by (intro entry_read_back [where t = body]) simp_all
  show "get_prop (JObj [(''expiration'', parsed_back E), (''data'', D)]) ''data'' = D"
    by (simp add: get_prop_def)
next
  assume "write_text (JObj [(''expiration'', E), (''data'', D)]) = Inr body
      \<and> \<not> accepts K body (window_get ty w)"
  then have "write_cache K (JObj [(''expiration'', E), (''data'', D)]) ty w
      = window_put ty (clear (window_get ty w)) w"
    by (simp add: write_cache_def setItem_def)
  then show "read K ty (write_cache K (JObj [(''expiration'', E), (''data'', D)]) ty w) = Inr JNull"
    by (simp add: read_def window_get_put clear_def getItem_def)
next
  assume "getItem K (window_get ty w) = Some stored
      \<and> stored \<notin> {[], ''null'', ''undefined'', ''{}'', ''[]''}
      \<and> JSON_parse stored = Inl e"
  then show "read K ty w = Inl e"
    by (simp add: read_def)
qed

theorem read_after_write_cache_witness:
  "read ''msal.id-1.info'' LOCAL_STORAGE
     (write_cache ''msal.id-1.info''
        (JObj [(''expiration'', JDate 1621533097000),
               (''data'', JObj [(''displayName'', JStr ''Ada''), (''ids'', JArr [JNum 1, JNum (- 2)])])])
        LOCAL_STORAGE
        \<lparr> localStorage = \<lparr> items = [], quota = 5000 \<rparr>, sessionStorage = \<lparr> items = [], quota = 5000 \<rparr> \<rparr>)
   = Inr (JObj [(''expiration'', JStr ''2021-05-20T17:51:37.000Z''),
                (''data'', JObj [(''displayName'', JStr ''Ada''), (''ids'', JArr [JNum 1, JNum (- 2)])])])
   \<and> read ''k'' SESSION_STORAGE
         \<lparr> localStorage = \<lparr> items = [], quota = 5000 \<rparr>,
           sessionStorage = \<lparr> items = [(''k'', ''[1, 2'')], quota = 5000 \<rparr> \<rparr>
       = Inl (SyntaxError ''Unexpected token in JSON'')"
proof -
  let ?D = "JObj [(''displayName'', JStr ''Ada''), (''ids'', JArr [JNum 1, JNum (- 2)])]"
  let ?E = "JDate 1621533097000"
  let ?w = "\<lparr> localStorage = \<lparr> items = [], quota = 5000 \<rparr>, sessionStorage = \<lparr> items = [], quota = 5000 \<rparr> \<rparr>"
  let ?u = "\<lparr> localStorage = \<lparr> items = [], quota = 5000 \<rparr>,
             sessionStorage = \<lparr> items = [(''k'', ''[1, 2'')], quota = 5000 \<rparr> \<rparr>"
  let ?body = "the (ser (JObj [(''expiration'', parsed_back ?E), (''data'', ?D)]))"
  have d: "json_value ?D"
    by (simp add: index_of_def is_digit_def)
  have e: "json_value ?E \<or> (\<exists>t. ?E = JDate t)" by simp
  have b: "write_text (JObj [(''expiration'', ?E), (''data'', ?D)]) = Inr ?body"
    using d e by (rule entry_text(1))
  have iso: "toISOString 1621533097000 = ''2021-05-20T17:51:37.000Z''"
    by (simp add: iso_eval)
  have len: "length ?body \<le> 200"
    by (simp add: iso QuoteJSONString_def esc_def Number_toString_def digits_of.simps digit_char_def)
  then have a: "accepts ''msal.id-1.info'' ?body (window_get LOCAL_STORAGE ?w)"
    by (simp add: accepts_def used_def)
  have p: "JSON_parse ''[1, 2'' = Inl (SyntaxError ''Unexpected token in JSON'')"
    by (simp add: JSON_parse_def skip_ws_def is_ws_def is_digit_def pnumber_def pfraction_def
        pexponent_def digits_val_def digit_val_def Let_def)
  have g: "getItem ''k'' (window_get SESSION_STORAGE ?u) = Some ''[1, 2''"
    by (simp add: getItem_def)
  have n: "''[1, 2'' \<notin> {[], ''null'', ''undefined'', ''{}'', ''[]''}" by simp
  note th = read_after_write_cache [of ?D ?E ?body "''msal.id-1.info''" LOCAL_STORAGE ?w]
  from th d e b a
  have 1: "read ''msal.id-1.info'' LOCAL_STORAGE
             (write_cache ''msal.id-1.info'' (JObj [(''expiration'', ?E), (''data'', ?D)]) LOCAL_STORAGE ?w)
           = Inr (JObj [(''expiration'', parsed_back ?E), (''data'', ?D)])"
    by blast
  from read_after_write_cache [of ?D ?E ?body "''k''" SESSION_STORAGE ?u "''[1, 2''"
      "SyntaxError ''Unexpected token in JSON''"] g n p
  have 2: "read ''k'' SESSION_STORAGE ?u = Inl (SyntaxError ''Unexpected token in JSON'')"
    by blast
  from 1 2 show ?thesis by (simp add: iso)
qed




end
